theory Spec2Isabelle
  imports Complex_Main "HOL-Library.AList"
begin

section \<open>JavaScript numbers\<close>

text \<open>
  A JavaScript \<open>number\<close> is an IEEE 754 binary64 value. The model keeps the three
  special values apart and holds a finite value as the real number it denotes. The two
  zeros are identified: in this code they could differ only as divisors, and every division of the modelled
  code has a divisor that a preceding guard makes non-zero (\<open>visits === 0\<close>,
  \<open>values.length > 0\<close>, \<open>zoomLevel <= 1\<close>).
\<close>

datatype jsnum = NaN | PInf | NInf | Fin real

text \<open>Round half to even, on a non-negative real.\<close>

definition rhe :: "real \<Rightarrow> int" where
  "rhe q = (let f = \<lfloor>q\<rfloor>; d = q - of_int f in
     if d < 1/2 then f else if 1/2 < d then f + 1 else if even f then f else f + 1)"

text \<open>
  The binade of a magnitude, by bisection on the exponent: for
  \<open>2^lo \<le> a < 2^hi\<close> the result \<open>e\<close> has \<open>2^e \<le> a < 2^(e+1)\<close>; below
  \<open>2^lo\<close> the result is \<open>lo\<close>, from \<open>2^hi\<close> on it is \<open>hi - 1\<close>.
\<close>

function binade :: "real \<Rightarrow> int \<Rightarrow> int \<Rightarrow> int" where
  "binade a lo hi = (if hi \<le> lo + 1 then lo else
     (let mid = (lo + hi) div 2 in
      if 2 powi mid \<le> a then binade a mid hi else binade a lo mid))"
  by pat_completeness auto
termination
  by (relation "measure (\<lambda>(a, lo, hi). nat (hi - lo))") auto

declare binade.simps [simp del]

text \<open>
  Rounding of a real to the nearest binary64 value, ties to even. A binary64 value is
  \<open>m * 2^k\<close> with an integer \<open>m\<close> of at most 53 bits and \<open>-1074 \<le> k \<le> 971\<close>;
  \<open>2^k\<close> below is the unit in the last place of the binade of \<open>x\<close> (the binades
  below \<open>2^-1022\<close> are subnormal and share the unit \<open>2^-1074\<close>). In the top binade a
  significand that rounds up to \<open>2^53\<close> is the magnitude \<open>2^1024\<close>: the result
  overflows to an infinity.
\<close>

definition ulp_exp :: "real \<Rightarrow> int" where
  "ulp_exp a = binade a (- 1022) 1024 - 52"

definition significand :: "real \<Rightarrow> int" where
  "significand a = rhe (a / 2 powi ulp_exp a)"

definition overflows :: "real \<Rightarrow> bool" where
  "overflows a \<longleftrightarrow> ulp_exp a = 971 \<and> 2 ^ 53 \<le> significand a"

definition rnd :: "real \<Rightarrow> jsnum" where
  "rnd x = (if overflows \<bar>x\<bar> then (if x < 0 then NInf else PInf)
     else Fin (sgn x * (of_int (significand \<bar>x\<bar>) * 2 powi ulp_exp \<bar>x\<bar>)))"

text \<open>The binary64 values: the reals that rounding leaves alone.\<close>

definition representable :: "real \<Rightarrow> bool" where
  "representable x \<longleftrightarrow> rnd x = Fin x"

subsection \<open>Arithmetic\<close>

definition fneg :: "jsnum \<Rightarrow> jsnum" where
  "fneg a = (case a of NaN \<Rightarrow> NaN | PInf \<Rightarrow> NInf | NInf \<Rightarrow> PInf | Fin x \<Rightarrow> Fin (- x))"

fun fadd :: "jsnum \<Rightarrow> jsnum \<Rightarrow> jsnum" where
  "fadd NaN _ = NaN"
| "fadd _ NaN = NaN"
| "fadd PInf NInf = NaN"
| "fadd NInf PInf = NaN"
| "fadd PInf _ = PInf"
| "fadd NInf _ = NInf"
| "fadd _ PInf = PInf"
| "fadd _ NInf = NInf"
| "fadd (Fin x) (Fin y) = rnd (x + y)"

definition fsub :: "jsnum \<Rightarrow> jsnum \<Rightarrow> jsnum" where
  "fsub a b = fadd a (fneg b)"

text \<open>The sign of a product or quotient with an infinite operand.\<close>

definition signed_inf :: "bool \<Rightarrow> jsnum" where
  "signed_inf negative = (if negative then NInf else PInf)"

fun is_negative :: "jsnum \<Rightarrow> bool" where
  "is_negative NInf = True"
| "is_negative (Fin x) = (x < 0)"
| "is_negative _ = False"

fun fmul :: "jsnum \<Rightarrow> jsnum \<Rightarrow> jsnum" where
  "fmul NaN _ = NaN"
| "fmul _ NaN = NaN"
| "fmul (Fin x) (Fin y) = rnd (x * y)"
| "fmul (Fin x) b = (if x = 0 then NaN else signed_inf ((x < 0) \<noteq> is_negative b))"
| "fmul a (Fin y) = (if y = 0 then NaN else signed_inf (is_negative a \<noteq> (y < 0)))"
| "fmul a b = signed_inf (is_negative a \<noteq> is_negative b)"

fun fdiv :: "jsnum \<Rightarrow> jsnum \<Rightarrow> jsnum" where
  "fdiv NaN _ = NaN"
| "fdiv _ NaN = NaN"
| "fdiv (Fin x) (Fin y) =
     (if y = 0 then (if x = 0 then NaN else signed_inf (x < 0)) else rnd (x / y))"
| "fdiv (Fin x) _ = Fin 0"
| "fdiv a (Fin y) = signed_inf (is_negative a \<noteq> (y < 0))"
| "fdiv _ _ = NaN"

subsection \<open>Comparisons and the global predicates\<close>

fun js_lt :: "jsnum \<Rightarrow> jsnum \<Rightarrow> bool" where
  "js_lt NaN _ = False"
| "js_lt _ NaN = False"
| "js_lt PInf _ = False"
| "js_lt _ NInf = False"
| "js_lt NInf _ = True"
| "js_lt _ PInf = True"
| "js_lt (Fin x) (Fin y) = (x < y)"

fun js_le :: "jsnum \<Rightarrow> jsnum \<Rightarrow> bool" where
  "js_le NaN _ = False"
| "js_le _ NaN = False"
| "js_le NInf _ = True"
| "js_le _ PInf = True"
| "js_le PInf _ = False"
| "js_le _ NInf = False"
| "js_le (Fin x) (Fin y) = (x \<le> y)"

definition js_gt :: "jsnum \<Rightarrow> jsnum \<Rightarrow> bool" where
  "js_gt a b = js_lt b a"

definition isNaN :: "jsnum \<Rightarrow> bool" where
  "isNaN a = (a = NaN)"

fun isFinite :: "jsnum \<Rightarrow> bool" where
  "isFinite (Fin _) = True"
| "isFinite _ = False"

subsection \<open>Math.floor, Math.min, Math.max\<close>

fun Math_floor :: "jsnum \<Rightarrow> jsnum" where
  "Math_floor (Fin x) = Fin (of_int \<lfloor>x\<rfloor>)"
| "Math_floor a = a"

definition Math_min :: "jsnum \<Rightarrow> jsnum \<Rightarrow> jsnum" where
  "Math_min a b = (if a = NaN \<or> b = NaN then NaN else if js_lt b a then b else a)"

definition Math_max :: "jsnum \<Rightarrow> jsnum \<Rightarrow> jsnum" where
  "Math_max a b = (if a = NaN \<or> b = NaN then NaN else if js_lt a b then b else a)"

text \<open>\<open>Math.min(...xs)\<close> and \<open>Math.max(...xs)\<close>: the fold starts from the infinity
  that the call without arguments returns.\<close>

definition Math_min_list :: "jsnum list \<Rightarrow> jsnum" where
  "Math_min_list xs = foldl Math_min PInf xs"

definition Math_max_list :: "jsnum list \<Rightarrow> jsnum" where
  "Math_max_list xs = foldl Math_max NInf xs"

subsection \<open>toFixed(2) and Number\<close>

text \<open>
  \<open>x.toFixed(2)\<close> returns a string; the model keeps the decimal that the string spells.
  Below \<open>10^21\<close> the digits are those of the integer \<open>n\<close> for which \<open>n / 100\<close> is
  closest to the magnitude of \<open>x\<close>, the larger \<open>n\<close> on a tie. From \<open>10^21\<close> on the
  string is \<open>ToString(x)\<close>, the shortest decimal that \<open>Number\<close> reads back as \<open>x\<close>:
  the model keeps \<open>x\<close> for it. \<open>Number\<close> reads a decimal as the nearest binary64 value.
\<close>

datatype numeric_string = StrNaN | StrInfinity | StrNegInfinity | StrDecimal real

definition toFixed2 :: "jsnum \<Rightarrow> numeric_string" where
  "toFixed2 a = (case a of
       NaN \<Rightarrow> StrNaN
     | PInf \<Rightarrow> StrInfinity
     | NInf \<Rightarrow> StrNegInfinity
     | Fin x \<Rightarrow> if 10 ^ 21 \<le> \<bar>x\<bar> then StrDecimal x
                else StrDecimal (sgn x * of_int \<lfloor>\<bar>x\<bar> * 100 + 1 / 2\<rfloor> / 100))"

definition Number :: "numeric_string \<Rightarrow> jsnum" where
  "Number s = (case s of
       StrNaN \<Rightarrow> NaN
     | StrInfinity \<Rightarrow> PInf
     | StrNegInfinity \<Rightarrow> NInf
     | StrDecimal r \<Rightarrow> rnd r)"

section \<open>Values, objects and arrays\<close>

text \<open>
  A property of a processed point holds a string or a number (\<open>types.ts\<close>); reading a
  missing property gives \<open>undefined\<close>. An object is the list of its own properties in
  insertion order. (The engine enumerates integer-like keys first; the order of
  enumeration changes no property value, and the statements below read properties.)
  Only own properties are modelled: a key that names a member of \<open>Object.prototype\<close>,
  such as \<open>constructor\<close>, reads as missing, and \<open>__proto__\<close> is a key like any other.
\<close>

datatype jsval = Undefined | Str string | Num jsnum

type_synonym obj = "(string \<times> jsval) list"

definition get :: "obj \<Rightarrow> string \<Rightarrow> jsval" where
  "get ob key = (case map_of ob key of None \<Rightarrow> Undefined | Some v \<Rightarrow> v)"

definition put :: "obj \<Rightarrow> string \<Rightarrow> jsval \<Rightarrow> obj" where
  "put ob key v = AList.update key v ob"

definition Object_keys :: "obj \<Rightarrow> string list" where
  "Object_keys ob = map fst ob"

text \<open>
  The conversions between strings and numbers belong to the engine, not to this program:
  the digits that \<open>Number::toString\<close> prints for a positive finite number, and
  \<open>StringToNumber\<close>. They are parameters of the model.
\<close>

record host =
  digits :: "real \<Rightarrow> string"
  StringToNumber :: "string \<Rightarrow> jsnum"

definition NumberToString :: "host \<Rightarrow> jsnum \<Rightarrow> string" where
  "NumberToString h a = (case a of
       NaN \<Rightarrow> ''NaN''
     | PInf \<Rightarrow> ''Infinity''
     | NInf \<Rightarrow> ''-Infinity''
     | Fin x \<Rightarrow> if x = 0 then ''0'' else if x < 0 then ''-'' @ digits h (- x) else digits h x)"

definition ToString :: "host \<Rightarrow> jsval \<Rightarrow> string" where
  "ToString h v = (case v of Undefined \<Rightarrow> ''undefined'' | Str s \<Rightarrow> s | Num a \<Rightarrow> NumberToString h a)"

definition ToNumber :: "host \<Rightarrow> jsval \<Rightarrow> jsnum" where
  "ToNumber h v = (case v of Undefined \<Rightarrow> NaN | Str s \<Rightarrow> StringToNumber h s | Num a \<Rightarrow> a)"

text \<open>The operator \<open>+\<close>: concatenation as soon as one operand is a string.\<close>

fun is_Str :: "jsval \<Rightarrow> bool" where
  "is_Str (Str _) = True"
| "is_Str _ = False"

definition js_add :: "host \<Rightarrow> jsval \<Rightarrow> jsval \<Rightarrow> jsval" where
  "js_add h a b = (if is_Str a \<or> is_Str b then Str (ToString h a @ ToString h b)
     else Num (fadd (ToNumber h a) (ToNumber h b)))"

text \<open>\<open>Array.prototype.slice(start, end)\<close>, with its relative indices.\<close>

fun relative_index :: "jsnum \<Rightarrow> int \<Rightarrow> int" where
  "relative_index NaN len = 0"
| "relative_index NInf len = 0"
| "relative_index PInf len = len"
| "relative_index (Fin x) len =
     (let i = (if 0 \<le> x then \<lfloor>x\<rfloor> else \<lceil>x\<rceil>) in
      if i < 0 then max (len + i) 0 else min i len)"

definition slice :: "jsnum \<Rightarrow> jsnum \<Rightarrow> 'a list \<Rightarrow> 'a list" where
  "slice start final xs =
     (let len = int (length xs);
          k = relative_index start len;
          e = relative_index final len
      in take (nat (e - k)) (drop (nat k) xs))"

section \<open>utils/dataProcessor.ts: the rate of one variation\<close>

definition calculateConversionRate :: "jsnum \<Rightarrow> jsnum \<Rightarrow> jsnum" where
  "calculateConversionRate conversions visits =
     (if visits = Fin 0 then Fin 0 else fmul (fdiv conversions visits) (Fin 100))"

text \<open>The value that \<open>processData\<close> stores under a key (lines 23 to 26 of the file).\<close>

definition pointValue :: "jsnum \<Rightarrow> jsnum \<Rightarrow> jsnum" where
  "pointValue conversions visits =
     (let conversionRate = calculateConversionRate conversions visits;
          value = Number (toFixed2 conversionRate)
      in if isNaN value \<or> \<not> isFinite value then Fin 0 else value)"

section \<open>types.ts\<close>

record Variation =
  id_opt :: "jsnum option"
  name :: string

record DataPoint =
  date :: string
  visits :: "string \<rightharpoonup> jsnum"
  conversions :: "string \<rightharpoonup> jsnum"

type_synonym ProcessedDataPoint = obj

datatype TimeRange = Day | Week

datatype LineStyle = Line | Smooth | Area

section \<open>utils/dataProcessor.ts\<close>

text \<open>\<open>record[key] || 0\<close>: a missing entry, a zero and NaN all give 0.\<close>

definition or_zero :: "jsnum option \<Rightarrow> jsnum" where
  "or_zero r = (case r of None \<Rightarrow> Fin 0 | Some a \<Rightarrow> if a = NaN \<or> a = Fin 0 then Fin 0 else a)"

definition processPoint :: "string list \<Rightarrow> DataPoint \<Rightarrow> ProcessedDataPoint" where
  "processPoint selectedVariations dataPoint =
     foldl (\<lambda>point variationKey.
              put point variationKey
                (Num (pointValue (or_zero (conversions dataPoint variationKey))
                                 (or_zero (visits dataPoint variationKey)))))
           [(''date'', Str (date dataPoint))] selectedVariations"

text \<open>The loop of \<open>aggregateByWeek\<close> that cuts the series into weeks.\<close>

function weekGroups_loop ::
  "nat \<Rightarrow> ProcessedDataPoint list \<Rightarrow> ProcessedDataPoint list list \<Rightarrow> ProcessedDataPoint list list"
where
  "weekGroups_loop i data weekGroups =
     (if i < length data then
        (let week = slice (Fin (real i)) (Fin (real (i + 7))) data
         in weekGroups_loop (i + 7) data
              (if 0 < length week then weekGroups @ [week] else weekGroups))
      else weekGroups)"
  by pat_completeness auto
termination
  by (relation "measure (\<lambda>(i, data, weekGroups). length data - i)") auto

declare weekGroups_loop.simps [simp del]

text \<open>The weekly value of one key (lines 63 to 70).\<close>

definition weekValue :: "host \<Rightarrow> ProcessedDataPoint list \<Rightarrow> string \<Rightarrow> jsnum" where
  "weekValue h week key =
     (let values = filter (\<lambda>val. \<not> isNaN (ToNumber h val) \<and> val \<noteq> Undefined
                                  \<and> isFinite (ToNumber h val))
                     (map (\<lambda>point. get point key) week);
          average = (if 0 < length values
                     then fdiv (ToNumber h (foldl (js_add h) (Num (Fin 0)) values))
                               (Fin (real (length values)))
                     else Fin 0);
          value = Number (toFixed2 average)
      in if isNaN value \<or> \<not> isFinite value then Fin 0 else value)"

text \<open>The body of \<open>weekGroups.forEach\<close>: \<open>None\<close> is its early return.\<close>

definition weekPoint :: "host \<Rightarrow> ProcessedDataPoint list \<Rightarrow> ProcessedDataPoint option" where
  "weekPoint h week =
     (case week of
        [] \<Rightarrow> None
      | first # _ \<Rightarrow>
          (let label = (if length week = 1 then get first ''date''
                        else Str (ToString h (get first ''date'') @ '' - '' @
                                  ToString h (get (last week) ''date'')));
               variationKeys = filter (\<lambda>key. key \<noteq> ''date'') (Object_keys first)
           in Some (foldl (\<lambda>weekPoint key. put weekPoint key (Num (weekValue h week key)))
                          [(''date'', label)] variationKeys)))"

definition aggregateByWeek :: "host \<Rightarrow> ProcessedDataPoint list \<Rightarrow> ProcessedDataPoint list" where
  "aggregateByWeek h data = List.map_filter (weekPoint h) (weekGroups_loop 0 data [])"

text \<open>\<open>ChartData\<close> of \<open>types.ts\<close>; its field \<open>data\<close> is the series of raw records.\<close>

record ChartData =
  variations :: "Variation list"
  data :: "DataPoint list"

definition processData ::
  "host \<Rightarrow> ChartData \<Rightarrow> string list \<Rightarrow> TimeRange \<Rightarrow> ProcessedDataPoint list" where
  "processData h chartData selectedVariations timeRange =
     (let processed = map (processPoint selectedVariations) (data chartData)
      in if timeRange = Week then aggregateByWeek h processed else processed)"

definition getVariationKey :: "host \<Rightarrow> Variation \<Rightarrow> string" where
  "getVariationKey h variation =
     (case id_opt variation of
        None \<Rightarrow> ''0''
      | Some a \<Rightarrow> (let s = NumberToString h a in if s = [] then ''0'' else s))"

section \<open>components/Chart/Chart.tsx\<close>

definition visibleDataRange :: "jsnum \<Rightarrow> jsnum \<Rightarrow> nat \<Rightarrow> (jsnum \<times> jsnum) option" where
  "visibleDataRange zoomLevel panOffset totalPoints =
     (if js_le zoomLevel (Fin 1) then None
      else
        (let visiblePoints = Math_floor (fdiv (Fin (real totalPoints)) zoomLevel);
             maxOffset = Math_max (Fin 0) (fsub (Fin (real totalPoints)) visiblePoints);
             clampedOffset = Math_max (Fin 0) (Math_min panOffset maxOffset);
             startIndex = Math_floor clampedOffset;
             endIndex = Math_min (fsub (fadd startIndex visiblePoints) (Fin 1))
                                 (fsub (Fin (real totalPoints)) (Fin 1))
         in Some (startIndex, endIndex)))"

definition dataToUse ::
  "ProcessedDataPoint list \<Rightarrow> (jsnum \<times> jsnum) option \<Rightarrow> ProcessedDataPoint list" where
  "dataToUse processedData visibleRange =
     (case visibleRange of
        Some (startIndex, endIndex) \<Rightarrow> slice startIndex (fadd endIndex (Fin 1)) processedData
      | None \<Rightarrow> processedData)"

definition allValues :: "host \<Rightarrow> ProcessedDataPoint list \<Rightarrow> string list \<Rightarrow> jsval list" where
  "allValues h points selectedVariations =
     concat (map (\<lambda>point.
                    filter (\<lambda>value. \<not> isNaN (ToNumber h value) \<and> isFinite (ToNumber h value)
                                     \<and> value \<noteq> Undefined)
                           (map (\<lambda>key. get point key) selectedVariations))
                 points)"

definition yAxisDomain ::
  "host \<Rightarrow> ProcessedDataPoint list \<Rightarrow> string list \<Rightarrow> (jsnum \<times> jsnum) option \<Rightarrow> LineStyle
   \<Rightarrow> jsnum \<times> jsnum" where
  "yAxisDomain h processedData selectedVariations visibleRange lineStyle =
     (let values = allValues h (dataToUse processedData visibleRange) selectedVariations in
      if length values = 0 then (Fin 0, Fin 100)
      else
        (let min = Math_min_list (map (ToNumber h) values);
             max = Math_max_list (map (ToNumber h) values) in
         if isNaN min \<or> isNaN max \<or> \<not> isFinite min \<or> \<not> isFinite max then (Fin 0, Fin 100)
         else
           (let range = fsub max min;
                isSmoothMode = (lineStyle = Smooth);
                top = (if isSmoothMode then rnd (2 / 10) else rnd (1 / 10));
                paddingTop0 = (if js_gt range (Fin 0) then fmul range top
                               else if js_gt max (Fin 0) then fmul max top
                               else Fin 1);
                paddingBottom0 = (if js_gt range (Fin 0) then fmul range (rnd (1 / 10))
                                  else if js_gt max (Fin 0) then fmul max (rnd (1 / 10))
                                  else Fin 1);
                paddingTop = (if js_lt paddingTop0 (Fin 1) then Fin 1 else paddingTop0);
                paddingBottom = (if js_lt paddingBottom0 (Fin 1) then Fin 1 else paddingBottom0);
                minDomain = (if isSmoothMode
                             then Math_max (Fin (- 5)) (fsub (fsub min paddingBottom) (Fin 5))
                             else Math_max (Fin 0) (fsub min paddingBottom));
                maxDomain = fadd max paddingTop;
                finalMax = (if isNaN maxDomain \<or> \<not> isFinite maxDomain
                            then Math_max (fmul max (rnd (12 / 10))) (Fin 100)
                            else maxDomain);
                finalMin = (if isNaN minDomain \<or> \<not> isFinite minDomain
                            then (if isSmoothMode then Fin (- 5) else Fin 0)
                            else minDomain)
            in (finalMin, finalMax))))"

section \<open>The formulas of the specification\<close>

text \<open>
  Rounding to 2 decimal digits: the nearest multiple of \<open>1/100\<close>, a tie going away
  from zero, as a binary64 value; NaN and the infinities have no digits to round.
\<close>

definition round2 :: "jsnum \<Rightarrow> jsnum" where
  "round2 a = (case a of
       Fin x \<Rightarrow> rnd (sgn x * of_int \<lfloor>\<bar>x\<bar> * 100 + 1 / 2\<rfloor> / 100)
     | _ \<Rightarrow> a)"

text \<open>The percentage \<open>(c / v) * 100\<close>.\<close>

definition percentage :: "jsnum \<Rightarrow> jsnum \<Rightarrow> jsnum" where
  "percentage c v = fmul (fdiv c v) (Fin 100)"

text \<open>
  The weekly value of a key: the arithmetic mean of the finite numbers among the values,
  0 when there is none, rounded to 2 decimal digits, a result that is not finite
  replaced by 0.
\<close>

definition finite_numbers :: "jsval list \<Rightarrow> jsnum list" where
  "finite_numbers vs = concat (map (\<lambda>v. case v of Num (Fin x) \<Rightarrow> [Fin x] | _ \<Rightarrow> []) vs)"

definition mean :: "jsnum list \<Rightarrow> jsnum" where
  "mean xs = (if xs = [] then Fin 0
     else fdiv (foldl fadd (Fin 0) xs) (Fin (real (length xs))))"

definition weeklyAggregate :: "jsval list \<Rightarrow> jsnum" where
  "weeklyAggregate vs =
     (let r = round2 (mean (finite_numbers vs)) in if isFinite r then r else Fin 0)"

text \<open>
  The invariant of a view range: two integer indices with
  \<open>0 \<le> startIndex \<le> endIndex \<le> seriesLength - 1\<close>.
\<close>

definition ViewRange_ok :: "nat \<Rightarrow> (jsnum \<times> jsnum) option \<Rightarrow> bool" where
  "ViewRange_ok seriesLength r =
     (case r of
        Some (Fin startIndex, Fin endIndex) \<Rightarrow>
          of_int \<lfloor>startIndex\<rfloor> = startIndex \<and> of_int \<lfloor>endIndex\<rfloor> = endIndex \<and>
          0 \<le> startIndex \<and> startIndex \<le> endIndex \<and> endIndex \<le> real seriesLength - 1
      | _ \<Rightarrow> False)"

text \<open>
  The weeks of a series: the consecutive chunks of 7 points from index \<open>i\<close> on, the
  last one shorter when the length is no multiple of 7.
\<close>

definition chunks :: "nat \<Rightarrow> 'a list \<Rightarrow> 'a list list" where
  "chunks i xs = map (\<lambda>j. take 7 (drop (i + 7 * j) xs)) [0..<(length xs - i + 6) div 7]"

text \<open>The label of a chunk: the date of its only point, or "first date - last date".\<close>

definition chunk_label :: "host \<Rightarrow> ProcessedDataPoint list \<Rightarrow> jsval" where
  "chunk_label h chunk =
     (if length chunk = 1 then get (hd chunk) ''date''
      else Str (ToString h (get (hd chunk) ''date'') @ '' - '' @
                ToString h (get (last chunk) ''date'')))"

text \<open>The invariant of an axis domain: two finite bounds with \<open>min \<le> max\<close>.\<close>

definition AxisDomain_ok :: "jsnum \<times> jsnum \<Rightarrow> bool" where
  "AxisDomain_ok d = (case d of (Fin lo, Fin hi) \<Rightarrow> lo \<le> hi | _ \<Rightarrow> False)"

section \<open>Data for the examples\<close>

text \<open>The examples below fix the two conversions of the engine; none of them depends on
  what the conversions return.\<close>

definition sample_host :: host where
  "sample_host = \<lparr>digits = (\<lambda>x. []), StringToNumber = (\<lambda>s. NaN)\<rparr>"

text \<open>The record of the scenario of the specification, and series of one and of ten days.\<close>

definition sample_day :: "string \<Rightarrow> DataPoint" where
  "sample_day d = \<lparr>date = d, visits = [''a'' \<mapsto> Fin 200], conversions = [''a'' \<mapsto> Fin 50]\<rparr>"

definition one_day :: ChartData where
  "one_day = \<lparr>variations = [], data = [sample_day ''2024-01-01'']\<rparr>"

definition ten_days :: ChartData where
  "ten_days = \<lparr>variations = [],
     data = map sample_day [''day1'', ''day2'', ''day3'', ''day4'', ''day5'', ''day6'', ''day7'',
                            ''day8'', ''day9'', ''day10'']\<rparr>"

text \<open>One day with 1 visit and \<open>5 * 2^1015\<close> conversions: a rate near the largest
  binary64 value.\<close>

definition huge_day :: ChartData where
  "huge_day = \<lparr>variations = [],
     data = [\<lparr>date = ''2024-01-01'', visits = [''0'' \<mapsto> Fin 1],
             conversions = [''0'' \<mapsto> Fin (5 * 2 ^ 1015)]\<rparr>]\<rparr>"

section \<open>Properties of the rounding\<close>

subsection \<open>The binade\<close>

lemma binade_range: "lo < hi \<Longrightarrow> lo \<le> binade a lo hi \<and> binade a lo hi < hi"
proof (induction a lo hi rule: binade.induct)
  case (1 a lo hi)
  show ?case
  proof (cases "hi \<le> lo + 1")
    case True
    with "1.prems" show ?thesis by (simp add: binade.simps)
  next
    case False
    let ?mid = "(lo + hi) div 2"
    from False have m: "lo < ?mid" "?mid < hi" by linarith+
    show ?thesis
    proof (cases "2 powi ?mid \<le> a")
      case True
      with False "1.IH"(1)[OF False refl True m(2)] m show ?thesis
        by (simp add: binade.simps[of a lo hi] Let_def)
    next
      case F2: False
      with False "1.IH"(2)[OF False refl F2 m(1)] m show ?thesis
        by (simp add: binade.simps[of a lo hi] Let_def)
    qed
  qed
qed

lemma binade_lower: "lo < hi \<Longrightarrow> 2 powi lo \<le> a \<Longrightarrow> 2 powi (binade a lo hi) \<le> a"
proof (induction a lo hi rule: binade.induct)
  case (1 a lo hi)
  show ?case
  proof (cases "hi \<le> lo + 1")
    case True
    with "1.prems" show ?thesis by (simp add: binade.simps)
  next
    case False
    let ?mid = "(lo + hi) div 2"
    from False have m: "lo < ?mid" "?mid < hi" by linarith+
    show ?thesis
    proof (cases "2 powi ?mid \<le> a")
      case True
      with False "1.IH"(1)[OF False refl True m(2) True] show ?thesis
        by (simp add: binade.simps[of a lo hi] Let_def)
    next
      case F2: False
      with False "1.IH"(2)[OF False refl F2 m(1) "1.prems"(2)] show ?thesis
        by (simp add: binade.simps[of a lo hi] Let_def)
    qed
  qed
qed

lemma binade_upper: "lo < hi \<Longrightarrow> a < 2 powi hi \<Longrightarrow> a < 2 powi (binade a lo hi + 1)"
proof (induction a lo hi rule: binade.induct)
  case (1 a lo hi)
  show ?case
  proof (cases "hi \<le> lo + 1")
    case True
    with "1.prems" have "hi = lo + 1" by simp
    with True "1.prems" show ?thesis by (simp add: binade.simps)
  next
    case False
    let ?mid = "(lo + hi) div 2"
    from False have m: "lo < ?mid" "?mid < hi" by linarith+
    show ?thesis
    proof (cases "2 powi ?mid \<le> a")
      case True
      with False "1.IH"(1)[OF False refl True m(2) "1.prems"(2)] show ?thesis
        by (simp add: binade.simps[of a lo hi] Let_def)
    next
      case F2: False
      then have "a < 2 powi ?mid" by simp
      with False F2 "1.IH"(2)[OF False refl F2 m(1)] show ?thesis
        by (simp add: binade.simps[of a lo hi] Let_def)
    qed
  qed
qed

lemma binade_below: "lo < hi \<Longrightarrow> a < 2 powi lo \<Longrightarrow> binade a lo hi = lo"
proof (induction a lo hi rule: binade.induct)
  case (1 a lo hi)
  show ?case
  proof (cases "hi \<le> lo + 1")
    case True
    then show ?thesis by (simp add: binade.simps)
  next
    case False
    let ?mid = "(lo + hi) div 2"
    from False have m: "lo < ?mid" "?mid < hi" by linarith+
    have "(2::real) powi lo \<le> 2 powi ?mid"
      using m by (intro power_int_increasing) auto
    with "1.prems" have F2: "\<not> 2 powi ?mid \<le> a" by linarith
    with False "1.IH"(2)[OF False refl F2 m(1) "1.prems"(2)] show ?thesis
      by (simp add: binade.simps[of a lo hi] Let_def)
  qed
qed

lemma binade_above: "lo < hi \<Longrightarrow> 2 powi hi \<le> a \<Longrightarrow> binade a lo hi = hi - 1"
proof (induction a lo hi rule: binade.induct)
  case (1 a lo hi)
  show ?case
  proof (cases "hi \<le> lo + 1")
    case True
    with "1.prems" show ?thesis by (simp add: binade.simps)
  next
    case False
    let ?mid = "(lo + hi) div 2"
    from False have m: "lo < ?mid" "?mid < hi" by linarith+
    have "(2::real) powi ?mid \<le> 2 powi hi"
      using m by (intro power_int_increasing) auto
    with "1.prems" have T: "2 powi ?mid \<le> a" by linarith
    with False "1.IH"(1)[OF False refl T m(2) "1.prems"(2)] show ?thesis
      by (simp add: binade.simps[of a lo hi] Let_def)
  qed
qed

lemma rhe_ge_floor: "\<lfloor>q\<rfloor> \<le> rhe q"
  by (simp add: rhe_def Let_def)

lemma rhe_le_ceiling: "rhe q \<le> \<lceil>q\<rceil>"
  unfolding rhe_def Let_def by (auto simp: ceiling_altdef) 

lemma rhe_of_int [simp]: "rhe (of_int n) = n"
  by (simp add: rhe_def Let_def)

lemma rhe_le_int: "q \<le> of_int n \<Longrightarrow> rhe q \<le> n"
  using rhe_le_ceiling[of q] by (simp add: ceiling_le_iff order_trans [OF rhe_le_ceiling])

lemma rhe_ge_int: "of_int n \<le> q \<Longrightarrow> n \<le> rhe q"
  using rhe_ge_floor[of q] by (meson le_floor_iff order_trans)


lemma ulp_exp_range: "- 1074 \<le> ulp_exp a \<and> ulp_exp a \<le> 971"
  using binade_range[of "- 1022" 1024 a] by (simp add: ulp_exp_def)

lemma ulp_exp_lower: "- 1074 < ulp_exp a \<Longrightarrow> 2 powi (ulp_exp a + 52) \<le> a"
proof -
  assume k: "- 1074 < ulp_exp a"
  have "\<not> a < 2 powi (- 1022)"
  proof
    assume "a < 2 powi (- 1022)"
    then have "binade a (- 1022) 1024 = - 1022" by (intro binade_below) auto
    with k show False by (simp add: ulp_exp_def)
  qed
  then have "2 powi (- 1022) \<le> a" by simp
  then have "2 powi (binade a (- 1022) 1024) \<le> a" by (intro binade_lower) auto
  then show ?thesis by (simp add: ulp_exp_def)
qed

lemma ulp_exp_upper: "a < 2 powi 1024 \<Longrightarrow> a < 2 powi (ulp_exp a + 53)"
  using binade_upper[of "- 1022" 1024 a] by (simp add: ulp_exp_def add.commute)

lemma ulp_exp_top: "2 powi 1024 \<le> a \<Longrightarrow> ulp_exp a = 971"
  using binade_above[of "- 1022" 1024 a] by (simp add: ulp_exp_def)

lemma powi_pos [simp]: "0 < (2::real) powi k"
  by (simp add: zero_less_power_int)

lemma powi_split: "(2::real) powi j = of_int (2 ^ nat (j - k)) * 2 powi k" if "k \<le> j"
proof -
  have "(2::real) powi j = 2 powi (int (nat (j - k)) + k)" using that by simp
  also have "\<dots> = 2 powi int (nat (j - k)) * 2 powi k" by (subst power_int_add) auto
  finally show ?thesis by (simp add: power_int_def)
qed

lemma round_le_binary64:
  fixes n :: int
  assumes n: "0 \<le> n" "n < 2 ^ 53" and j: "- 1074 \<le> j" "j \<le> 971"
    and a: "0 \<le> a" "a \<le> of_int n * 2 powi j"
  defines "k \<equiv> ulp_exp a"
  shows "real_of_int (significand a) * 2 powi k \<le> real_of_int n * 2 powi j"
    and "\<not> overflows a"
proof -
  have kj: "k \<le> j"
  proof (rule ccontr)
    assume "\<not> k \<le> j"
    then have jk: "j + 1 \<le> k" by simp
    with j have "- 1074 < k" by simp
    then have "2 powi (k + 52) \<le> a" unfolding k_def by (rule ulp_exp_lower)
    also have "a \<le> of_int n * 2 powi j" by fact
    also have "\<dots> < 2 ^ 53 * 2 powi j"
      using n by (intro mult_strict_right_mono) (auto simp flip: of_int_less_iff)
    also have "\<dots> = 2 powi (53 + j)" by (subst power_int_add) auto
    also have "\<dots> \<le> 2 powi (k + 52)" using jk by (intro power_int_increasing) auto
    finally show False by simp
  qed
  define N where "N = n * 2 ^ nat (j - k)"
  have b: "real_of_int n * 2 powi j = real_of_int N * 2 powi k"
    unfolding N_def by (subst powi_split[OF kj]) simp
  have "a / 2 powi k \<le> of_int N"
    using a(2) unfolding b by (simp add: field_simps)
  then have le: "significand a \<le> N" unfolding significand_def k_def by (rule rhe_le_int)
  then have "real_of_int (significand a) * 2 powi k \<le> real_of_int N * 2 powi k"
    by (intro mult_right_mono) auto
  then show "real_of_int (significand a) * 2 powi k \<le> real_of_int n * 2 powi j"
    by (simp add: b)
  show "\<not> overflows a"
  proof
    assume "overflows a"
    then have o: "k = 971" "2 ^ 53 \<le> significand a" by (simp_all add: overflows_def k_def)
    from o(1) kj j have "j = k" by linarith
    then have "N = n" by (simp add: N_def)
    with o(2) le n show False by linarith
  qed
qed

lemma round_ge_binary64:
  fixes n :: int
  assumes n: "0 \<le> n" "n < 2 ^ 53" and j: "- 1074 \<le> j" "j \<le> 971"
    and a: "of_int n * 2 powi j \<le> a"
  defines "k \<equiv> ulp_exp a"
  shows "real_of_int n * 2 powi j \<le> real_of_int (significand a) * 2 powi k"
proof (cases "k \<le> j")
  case True
  define N where "N = n * 2 ^ nat (j - k)"
  have b: "real_of_int n * 2 powi j = real_of_int N * 2 powi k"
    unfolding N_def by (subst powi_split[OF True]) simp
  have "of_int N \<le> a / 2 powi k"
    using a unfolding b by (simp add: field_simps)
  then have "N \<le> significand a" unfolding significand_def k_def by (rule rhe_ge_int)
  then have "real_of_int N * 2 powi k \<le> real_of_int (significand a) * 2 powi k"
    by (intro mult_right_mono) auto
  then show ?thesis by (simp add: b)
next
  case False
  then have jk: "j + 1 \<le> k" by simp
  with j have "- 1074 < k" by simp
  then have lo: "2 powi (k + 52) \<le> a" unfolding k_def by (rule ulp_exp_lower)
  have "(2::real) powi (k + 52) = of_int (2 ^ 52) * 2 powi k"
    by (subst power_int_add) auto
  with lo have "real_of_int (2 ^ 52) \<le> a / 2 powi k" by (simp add: field_simps)
  then have "2 ^ 52 \<le> significand a" unfolding significand_def k_def by (rule rhe_ge_int)
  then have "real_of_int (2 ^ 52) * 2 powi k \<le> real_of_int (significand a) * 2 powi k"
    by (intro mult_right_mono) (auto simp flip: of_int_le_iff)
  moreover have "real_of_int n * 2 powi j \<le> 2 ^ 53 * 2 powi j"
    using n by (intro mult_right_mono) (auto simp flip: of_int_le_iff)
  moreover have "2 ^ 53 * 2 powi j = (2::real) powi (53 + j)" by (subst power_int_add) auto
  moreover have "(2::real) powi (53 + j) \<le> 2 powi (k + 52)"
    using jk by (intro power_int_increasing) auto
  moreover have "(2::real) powi (k + 52) = of_int (2 ^ 52) * 2 powi k"
    by (subst power_int_add) auto
  ultimately show ?thesis by linarith
qed



subsection \<open>Rounding and the binary64 values\<close>

lemma significand_nonneg: "0 \<le> a \<Longrightarrow> 0 \<le> significand a"
  unfolding significand_def using rhe_ge_int[of 0 "a / 2 powi ulp_exp a"] by simp

lemma significand_le:
  assumes "\<not> overflows a"
  shows "significand a \<le> 2 ^ 53"
proof (cases "a < 2 powi 1024")
  case True
  then have "a < 2 powi (ulp_exp a + 53)" by (rule ulp_exp_upper)
  also have "\<dots> = 2 powi ulp_exp a * 2 ^ 53" by (subst power_int_add) auto
  finally have "a / 2 powi ulp_exp a \<le> real_of_int (2 ^ 53)"
    by (simp add: field_simps)
  then show ?thesis unfolding significand_def by (rule rhe_le_int)
next
  case False
  then have top: "2 powi 1024 \<le> a" by simp
  then have k: "ulp_exp a = 971" by (rule ulp_exp_top)
  have "(2::real) powi 1024 = real_of_int (2 ^ 53) * 2 powi 971"
    by (simp flip: power_add)
  with top have "real_of_int (2 ^ 53) \<le> a / 2 powi 971"
    by (simp only: pos_le_divide_eq powi_pos)
  then have "2 ^ 53 \<le> rhe (a / 2 powi 971)" by (rule rhe_ge_int)
  then have "overflows a" unfolding overflows_def significand_def k by simp
  with assms show ?thesis by simp
qed

lemma binary64_form:
  assumes "rnd x = Fin y"
  shows "\<exists>n j. \<bar>n\<bar> < 2 ^ 53 \<and> - 1074 \<le> j \<and> j \<le> 971 \<and> y = real_of_int n * 2 powi j"
proof -
  define k where "k = ulp_exp \<bar>x\<bar>"
  define m where "m = significand \<bar>x\<bar>"
  define s :: int where "s = (if x < 0 then - 1 else if x = 0 then 0 else 1)"
  have s: "sgn x = real_of_int s" "\<bar>s\<bar> \<le> 1" by (auto simp: s_def sgn_if)
  from assms have no: "\<not> overflows \<bar>x\<bar>" by (auto simp: rnd_def split: if_splits)
  with assms have y: "y = real_of_int (s * m) * 2 powi k"
    by (simp add: rnd_def k_def m_def s)
  have m0: "0 \<le> m" unfolding m_def by (intro significand_nonneg) simp
  have m1: "m \<le> 2 ^ 53" unfolding m_def using no by (rule significand_le)
  have kr: "- 1074 \<le> k" "k \<le> 971" using ulp_exp_range[of "\<bar>x\<bar>"] by (simp_all add: k_def)
  show ?thesis
  proof (cases "m = 2 ^ 53")
    case False
    with m0 m1 have "\<bar>m\<bar> < 2 ^ 53" by simp
    with s(2) have "\<bar>s * m\<bar> < 2 ^ 53" 
      by (auto simp: abs_mult s_def split: if_splits)
    with y kr show ?thesis by blast
  next
    case True
    with no have "k \<noteq> 971" by (auto simp: k_def m_def overflows_def)
    with kr have k1: "k + 1 \<le> 971" "- 1074 \<le> k + 1" by simp_all
    have "(2::real) powi (k + 1) = 2 powi k * 2" by (subst power_int_add) auto
    then have "y = real_of_int (s * 2 ^ 52) * 2 powi (k + 1)"
      unfolding y True by simp
    moreover have "\<bar>s * 2 ^ 52\<bar> < (2::int) ^ 53" by (simp add: s_def)
    ultimately show ?thesis using k1 by blast
  qed
qed

lemma rnd_binary64:
  fixes n :: int
  assumes n: "\<bar>n\<bar> < 2 ^ 53" and j: "- 1074 \<le> j" "j \<le> 971"
  shows "rnd (real_of_int n * 2 powi j) = Fin (real_of_int n * 2 powi j)"
proof -
  define y where "y = real_of_int n * 2 powi j"
  have a: "\<bar>y\<bar> = real_of_int \<bar>n\<bar> * 2 powi j" by (simp add: y_def abs_mult)
  have n': "0 \<le> \<bar>n\<bar>" "\<bar>n\<bar> < 2 ^ 53" using n by simp_all
  have a0: "0 \<le> \<bar>y\<bar>" by (rule abs_ge_zero)
  have a1: "\<bar>y\<bar> \<le> real_of_int \<bar>n\<bar> * 2 powi j" by (simp only: a order_refl)
  have a2: "real_of_int \<bar>n\<bar> * 2 powi j \<le> \<bar>y\<bar>" by (simp only: a order_refl)
  have le: "real_of_int (significand \<bar>y\<bar>) * 2 powi ulp_exp \<bar>y\<bar> \<le> \<bar>y\<bar>"
    using round_le_binary64(1)[OF n' j a0 a1] by (simp only: a)
  have no: "\<not> overflows \<bar>y\<bar>"
    using round_le_binary64(2)[OF n' j a0 a1] .
  have ge: "\<bar>y\<bar> \<le> real_of_int (significand \<bar>y\<bar>) * 2 powi ulp_exp \<bar>y\<bar>"
    using round_ge_binary64[OF n' j a2] by (simp only: a)
  from le ge have "real_of_int (significand \<bar>y\<bar>) * 2 powi ulp_exp \<bar>y\<bar> = \<bar>y\<bar>"
    by simp
  with no have "rnd y = Fin (sgn y * \<bar>y\<bar>)"
    by (simp add: rnd_def)
  also have "sgn y * \<bar>y\<bar> = y" by (simp add: sgn_if)
  finally show ?thesis by (simp add: y_def)
qed

lemma representable_iff:
  "representable y \<longleftrightarrow>
   (\<exists>n j. \<bar>n\<bar> < 2 ^ 53 \<and> - 1074 \<le> j \<and> j \<le> 971 \<and> y = real_of_int n * 2 powi j)"
  unfolding representable_def using binary64_form[of y y] rnd_binary64 by auto

lemma rnd_representable: "rnd x = Fin y \<Longrightarrow> representable y"
  using binary64_form[of x y] by (auto simp: representable_iff)

lemma representable_uminus: "representable y \<Longrightarrow> representable (- y)"
proof -
  assume "representable y"
  then obtain n j where *: "\<bar>n\<bar> < 2 ^ 53" "- 1074 \<le> j" "j \<le> 971"
    "y = real_of_int n * 2 powi j" unfolding representable_iff by blast
  then have "\<bar>- n\<bar> < 2 ^ 53" "- y = real_of_int (- n) * 2 powi j" by simp_all
  with *(2,3) show ?thesis unfolding representable_iff by blast
qed

lemma representable_nonneg_form:
  assumes "representable b" "0 \<le> b"
  obtains n j where "0 \<le> n" "n < 2 ^ 53" "- 1074 \<le> j" "j \<le> 971" "b = real_of_int n * 2 powi j"
proof -
  from assms(1) obtain n j where *: "\<bar>n\<bar> < 2 ^ 53" "- 1074 \<le> j" "j \<le> 971"
    "b = real_of_int n * 2 powi j" unfolding representable_iff by blast
  have "0 \<le> real_of_int n * 2 powi j / 2 powi j"
    using assms(2) unfolding *(4) by (intro divide_nonneg_pos) auto
  then have "0 \<le> n" by simp
  with * that show thesis by simp
qed

lemma not_overflows_0: "\<not> overflows 0"
  using round_le_binary64(2)[of 0 0 0] by simp

lemma rnd_uminus: "rnd (- x) = fneg (rnd x)"
  by (auto simp: rnd_def fneg_def sgn_if not_overflows_0)

lemma rnd_le_representable:
  assumes b: "representable b" and x: "x \<le> b"
  shows "js_le (rnd x) (Fin b)"
proof (cases "0 \<le> x")
  case True
  with x have "0 \<le> b" by simp
  with b obtain n j where nj: "0 \<le> n" "n < 2 ^ 53" "- 1074 \<le> j" "j \<le> 971"
    "b = real_of_int n * 2 powi j" by (rule representable_nonneg_form)
  from True x have a: "0 \<le> \<bar>x\<bar>" "\<bar>x\<bar> \<le> real_of_int n * 2 powi j" by (simp_all add: nj(5))
  have le: "real_of_int (significand \<bar>x\<bar>) * 2 powi ulp_exp \<bar>x\<bar> \<le> b"
    and no: "\<not> overflows \<bar>x\<bar>"
    using round_le_binary64[OF nj(1-4) a] by (simp_all only: nj(5) not_False_eq_True)
  have "sgn x * (real_of_int (significand \<bar>x\<bar>) * 2 powi ulp_exp \<bar>x\<bar>) \<le> b"
    using le True \<open>0 \<le> b\<close> by (cases "x = 0") (simp_all add: sgn_if)
  with no show ?thesis by (simp add: rnd_def)
next
  case False
  then have neg: "x < 0" by simp
  have r0: "0 \<le> real_of_int (significand \<bar>x\<bar>) * 2 powi ulp_exp \<bar>x\<bar>"
    by (intro mult_nonneg_nonneg) (auto intro!: significand_nonneg)
  show ?thesis
  proof (cases "0 \<le> b")
    case True
    with r0 neg show ?thesis
      by (simp add: rnd_def sgn_if)
  next
    case F: False
    then have "0 \<le> - b" by simp
    with representable_uminus[OF b] obtain n j where nj: "0 \<le> n" "n < 2 ^ 53" "- 1074 \<le> j" "j \<le> 971"
      "- b = real_of_int n * 2 powi j" by (rule representable_nonneg_form)
    from neg x have a: "real_of_int n * 2 powi j \<le> \<bar>x\<bar>" by (simp flip: nj(5))
    have "- b \<le> real_of_int (significand \<bar>x\<bar>) * 2 powi ulp_exp \<bar>x\<bar>"
      using round_ge_binary64[OF nj(1-4) a] by (simp only: nj(5))
    with neg show ?thesis
      by (simp add: rnd_def sgn_if)
  qed
qed

lemma js_le_fneg: "js_le (fneg a) (fneg b) = js_le b a"
  by (cases a; cases b) (auto simp: fneg_def)

lemma rnd_ge_representable:
  assumes b: "representable b" and x: "b \<le> x"
  shows "js_le (Fin b) (rnd x)"
proof -
  have "js_le (rnd (- x)) (Fin (- b))"
    using representable_uminus[OF b] x by (intro rnd_le_representable) auto
  then show ?thesis
    using js_le_fneg[of "rnd x" "Fin b"] by (simp add: rnd_uminus fneg_def)
qed

lemma rnd_fixed: "representable x \<Longrightarrow> rnd x = Fin x"
  by (simp add: representable_def)

lemma representable_of_int:
  assumes "\<bar>n\<bar> \<le> 2 ^ 53"
  shows "representable (real_of_int n)"
proof (cases "\<bar>n\<bar> = 2 ^ 53")
  case True
  define h :: int where "h = (if n < 0 then - (2 ^ 52) else 2 ^ 52)"
  from True have "real_of_int n = real_of_int h * 2 powi 1" by (auto simp: h_def abs_if split: if_splits)
  moreover have "\<bar>h\<bar> < 2 ^ 53" by (simp add: h_def)
  moreover have "- 1074 \<le> (1::int)" "(1::int) \<le> 971" by simp_all
  ultimately show ?thesis unfolding representable_iff by blast
next
  case False
  with assms have "\<bar>n\<bar> < 2 ^ 53" by simp
  moreover have "real_of_int n = real_of_int n * 2 powi 0" by simp
  moreover have "- 1074 \<le> (0::int)" "(0::int) \<le> 971" by simp_all
  ultimately show ?thesis unfolding representable_iff by blast
qed


subsection \<open>Evaluating a rounding\<close>

lemma rnd_code:
  "rnd x = (let k = ulp_exp \<bar>x\<bar> in let m = rhe (\<bar>x\<bar> / 2 powi k) in
     if k = 971 \<and> 2 ^ 53 \<le> m then (if x < 0 then NInf else PInf)
     else Fin (sgn x * (of_int m * 2 powi k)))"
  unfolding rnd_def overflows_def significand_def Let_def ..

lemma rhe_code:
  "rhe q = (let f = \<lfloor>q\<rfloor> in
     if q - of_int f < 1/2 then f else if 1/2 < q - of_int f then f + 1
     else if even f then f else f + 1)"
  by (simp add: rhe_def Let_def)

lemma rnd_0 [simp]: "rnd 0 = Fin 0"
  using rnd_fixed[OF representable_of_int[of 0]] by simp

lemma rnd_1 [simp]: "rnd 1 = Fin 1"
  using rnd_fixed[OF representable_of_int[of 1]] by simp

lemma rnd_numeral [simp]:
  "(numeral n :: real) \<le> 9007199254740992 \<Longrightarrow> rnd (numeral n) = Fin (numeral n)"
  using rnd_fixed[OF representable_of_int[of "numeral n"]] by simp

lemma rnd_neg_numeral [simp]:
  "(numeral n :: real) \<le> 9007199254740992 \<Longrightarrow> rnd (- numeral n) = Fin (- numeral n)"
  using rnd_fixed[OF representable_of_int[of "- numeral n"]] by simp

lemmas rnd_eval = rnd_code rhe_code ulp_exp_def binade.simps

section \<open>The visible range\<close>

lemma rnd_of_int: "\<bar>k\<bar> \<le> 2 ^ 53 \<Longrightarrow> rnd (real_of_int k) = Fin (real_of_int k)"
  by (intro rnd_fixed representable_of_int)

lemma js_between_Fin:
  assumes "js_le (Fin a) r" "js_le r (Fin b)"
  obtains q where "r = Fin q" "a \<le> q" "q \<le> b"
  using assms by (cases r) auto

text \<open>The two examples of the specification: a series of 100 points at zoom 2.\<close>

lemma visibleDataRange_100_start: "visibleDataRange (Fin 2) (Fin 0) 100 = Some (Fin 0, Fin 49)"
  by (simp add: visibleDataRange_def Math_max_def Math_min_def fsub_def fneg_def rnd_eval)

lemma visibleDataRange_100_end: "visibleDataRange (Fin 2) (Fin 1000) 100 = Some (Fin 50, Fin 99)"
  by (simp add: visibleDataRange_def Math_max_def Math_min_def fsub_def fneg_def rnd_eval)

text \<open>
  Claim C1, as stated: for every series length above 0, every zoom level above 1 and at
  most 5 and every pan offset, the range has
  \<open>0 \<le> startIndex \<le> endIndex \<le> seriesLength - 1\<close>. It fails for a series shorter
  than the zoom level: one point at zoom 2 gives no visible point and the range from 0
  to -1.
\<close>

theorem visibleDataRange_counterexample:
  "\<not> ViewRange_ok 1 (visibleDataRange (Fin 2) (Fin 0) 1)"
  by (simp add: ViewRange_ok_def visibleDataRange_def Math_max_def Math_min_def fsub_def
      fneg_def rnd_eval)

text \<open>
  Claim C1, amended: for every zoom level above 1 and every series at least as long as
  the zoom level (the length of an array is far below \<open>2^53\<close>), whatever the pan
  offset, the range consists of two integer indices with
  \<open>0 \<le> startIndex \<le> endIndex \<le> seriesLength - 1\<close>.
\<close>

theorem visibleDataRange_valid:
  assumes z: "1 < zoomLevel" "zoomLevel \<le> real seriesLength"
    and n: "real seriesLength \<le> 2 ^ 53"
  shows "ViewRange_ok seriesLength (visibleDataRange (Fin zoomLevel) (Fin panOffset) seriesLength)"
proof -
  define N where "N = int seriesLength"
  have N: "real seriesLength = real_of_int N" by (simp add: N_def)
  have Nb: "N \<le> 2 ^ 53" using n unfolding N by (simp flip: of_int_le_iff)
  have N0: "1 < N" using z unfolding N by linarith
  \<comment> \<open>the quotient, rounded, stays between 1 and the length\<close>
  have q1: "1 \<le> real_of_int N / zoomLevel" using z by (simp add: N)
  have q2: "real_of_int N / zoomLevel \<le> real_of_int N"
    using z N0 by (simp add: field_simps mult_le_cancel_left1)
  have "js_le (Fin 1) (rnd (real_of_int N / zoomLevel))"
    using q1 representable_of_int[of 1] by (intro rnd_ge_representable) simp_all
  moreover have "js_le (rnd (real_of_int N / zoomLevel)) (Fin (real_of_int N))"
    using q2 Nb N0 by (intro rnd_le_representable representable_of_int) simp_all
  ultimately obtain q where q: "rnd (real_of_int N / zoomLevel) = Fin q" "1 \<le> q" "q \<le> real_of_int N"
    by (rule js_between_Fin)
  define v where "v = \<lfloor>q\<rfloor>"
  have v: "1 \<le> v" "v \<le> N" using q by (simp_all add: v_def le_floor_iff floor_le_iff) 
  have visiblePoints: "Math_floor (fdiv (Fin (real seriesLength)) (Fin zoomLevel)) = Fin (real_of_int v)"
    using z q by (simp add: N v_def)
  \<comment> \<open>from here on every operand is an integer of at most 53 bits\<close>
  have maxOffset: "Math_max (Fin 0) (fsub (Fin (real seriesLength)) (Fin (real_of_int v)))
      = Fin (real_of_int (N - v))"
    using v Nb rnd_of_int[of "N - v"] by (simp add: N fsub_def fneg_def Math_max_def)
  define c where "c = max 0 (min panOffset (real_of_int (N - v)))"
  have clampedOffset: "Math_max (Fin 0) (Math_min (Fin panOffset) (Fin (real_of_int (N - v)))) = Fin c"
    by (auto simp: Math_max_def Math_min_def c_def max_def min_def)
  define s where "s = \<lfloor>c\<rfloor>"
  have startIndex: "Math_floor (Fin c) = Fin (real_of_int s)" by (simp add: s_def)
  have c: "0 \<le> c" "c \<le> real_of_int (N - v)" using v by (simp_all add: c_def)
  have s: "0 \<le> s" "s \<le> N - v" using c by (simp_all add: s_def floor_le_iff le_floor_iff) 
  have sum: "fadd (Fin (real_of_int s)) (Fin (real_of_int v)) = Fin (real_of_int (s + v))"
    using s v Nb rnd_of_int[of "s + v"] by simp
  have e1: "fsub (Fin (real_of_int (s + v))) (Fin 1) = Fin (real_of_int (s + v - 1))"
    using s v Nb rnd_of_int[of "s + v - 1"] by (simp add: fsub_def fneg_def)
  have e2: "fsub (Fin (real seriesLength)) (Fin 1) = Fin (real_of_int (N - 1))"
    using N0 Nb rnd_of_int[of "N - 1"] by (simp add: N fsub_def fneg_def)
  have endIndex: "Math_min (Fin (real_of_int (s + v - 1))) (Fin (real_of_int (N - 1)))
      = Fin (real_of_int (s + v - 1))"
    using s by (simp add: Math_min_def)
  have "visibleDataRange (Fin zoomLevel) (Fin panOffset) seriesLength
      = Some (Fin (real_of_int s), Fin (real_of_int (s + v - 1)))"
    unfolding visibleDataRange_def Let_def visiblePoints maxOffset clampedOffset startIndex
      sum e1 e2 endIndex
    using z(1) by simp
  then show ?thesis
    using s v by (simp add: ViewRange_ok_def N)
qed

theorem visibleDataRange_valid_witness:
  "ViewRange_ok 100 (visibleDataRange (Fin 2) (Fin 1000) 100)"
  using visibleDataRange_valid[of 2 100 1000] by simp

section \<open>The rate of one variation\<close>

lemma Number_toFixed2_special:
  "Number (toFixed2 NaN) = NaN" "Number (toFixed2 PInf) = PInf" "Number (toFixed2 NInf) = NInf"
  by (simp_all add: Number_def toFixed2_def)

text \<open>
  \<open>calculateConversionRate\<close> alone passes a NaN on; the coercion to 0 is the last step
  of the value that \<open>processData\<close> stores.
\<close>

lemma calculateConversionRate_NaN: "calculateConversionRate NaN (Fin 1) = NaN"
  by (simp add: calculateConversionRate_def)

lemma fmul_representable: "fmul a b = Fin x \<Longrightarrow> representable x"
  by (cases a; cases b) (auto simp: signed_inf_def rnd_representable split: if_splits)

lemma fdiv_representable: "fdiv a b = Fin x \<Longrightarrow> representable x"
  by (cases a; cases b)
     (auto simp: signed_inf_def rnd_representable representable_of_int[of 0, simplified]
           split: if_splits)

lemma fadd_representable: "fadd a b = Fin x \<Longrightarrow> representable x"
  by (cases a; cases b) (auto simp: rnd_representable)

lemma representable_large_int:
  assumes "representable x" "10 ^ 21 \<le> \<bar>x\<bar>"
  shows "\<exists>k::int. x = real_of_int k"
proof -
  from assms(1) obtain n j where nj: "\<bar>n\<bar> < 2 ^ 53" "x = real_of_int n * 2 powi j"
    unfolding representable_iff by blast
  have "0 \<le> j"
  proof (rule ccontr)
    assume "\<not> 0 \<le> j"
    then have "(2::real) powi j \<le> 2 powi 0" by (intro power_int_increasing) auto
    then have "(2::real) powi j \<le> 1" by simp
    moreover have "\<bar>x\<bar> = \<bar>real_of_int n\<bar> * 2 powi j" by (simp add: nj(2) abs_mult)
    moreover have "\<bar>real_of_int n\<bar> < 2 ^ 53" using nj(1) by (simp flip: of_int_abs)
    ultimately have "\<bar>x\<bar> < 2 ^ 53"
      by (smt (verit) mult_left_le abs_ge_zero)
    with assms(2) show False by simp
  qed
  then have "x = real_of_int (n * 2 ^ nat j)" by (simp add: nj(2) power_int_def)
  then show ?thesis ..
qed

lemma floor_int_half: "\<lfloor>real_of_int m + 1 / 2\<rfloor> = m"
  by linarith

lemma round_large_int:
  assumes "representable x" "10 ^ 21 \<le> \<bar>x\<bar>"
  shows "sgn x * real_of_int \<lfloor>\<bar>x\<bar> * 100 + 1 / 2\<rfloor> / 100 = x"
proof -
  from assms obtain k :: int where k: "x = real_of_int k" using representable_large_int by blast
  have "\<bar>x\<bar> * 100 + 1 / 2 = real_of_int (\<bar>k\<bar> * 100) + 1 / 2" by (simp add: k)
  then have "\<lfloor>\<bar>x\<bar> * 100 + 1 / 2\<rfloor> = \<bar>k\<bar> * 100" by (simp only: floor_int_half)
  then show ?thesis by (simp add: k sgn_if)
qed

lemma representable_2_70: "representable (2 ^ 70)"
proof -
  have "\<bar>1::int\<bar> < 2 ^ 53" "- 1074 \<le> (70::int)" "(70::int) \<le> 971"
    "(2::real) ^ 70 = real_of_int 1 * 2 powi 70" by simp_all
  then show ?thesis unfolding representable_iff by blast
qed

lemma round2_finite:
  assumes "representable x"
  shows "\<exists>y. round2 (Fin x) = Fin y"
proof (cases "10 ^ 21 \<le> \<bar>x\<bar>")
  case True
  with assms have "sgn x * real_of_int \<lfloor>\<bar>x\<bar> * 100 + 1 / 2\<rfloor> / 100 = x"
    by (rule round_large_int)
  then show ?thesis using assms by (simp add: round2_def rnd_fixed)
next
  case False
  define y where "y = sgn x * real_of_int \<lfloor>\<bar>x\<bar> * 100 + 1 / 2\<rfloor> / 100"
  have "real_of_int \<lfloor>\<bar>x\<bar> * 100 + 1 / 2\<rfloor> \<le> \<bar>x\<bar> * 100 + 1 / 2" by (rule of_int_floor_le)
  moreover have "0 \<le> real_of_int \<lfloor>\<bar>x\<bar> * 100 + 1 / 2\<rfloor>" by simp
  ultimately have "\<bar>y\<bar> \<le> \<bar>x\<bar> + 1 / 200"
    by (simp add: y_def abs_mult abs_sgn_eq field_simps)
  with False have "\<bar>y\<bar> \<le> 2 ^ 70" by simp
  then have "y \<le> 2 ^ 70" "- (2 ^ 70) \<le> y" by (simp_all add: abs_le_iff)
  then have "js_le (rnd y) (Fin (2 ^ 70))" "js_le (Fin (- (2 ^ 70))) (rnd y)"
    using representable_2_70 representable_uminus[OF representable_2_70]
    by (auto intro: rnd_le_representable rnd_ge_representable)
  then obtain q where "rnd y = Fin q" by (cases "rnd y") auto
  then show ?thesis by (simp add: round2_def y_def)
qed

lemma Number_toFixed2_round2:
  assumes "representable x"
  shows "Number (toFixed2 (Fin x)) = round2 (Fin x)"
proof (cases "10 ^ 21 \<le> \<bar>x\<bar>")
  case True
  with assms have "sgn x * real_of_int \<lfloor>\<bar>x\<bar> * 100 + 1 / 2\<rfloor> / 100 = x"
    by (rule round_large_int)
  with True show ?thesis by (simp add: round2_def toFixed2_def Number_def)
next
  case False
  then show ?thesis by (simp add: round2_def toFixed2_def Number_def)
qed

lemma percentage_zero_visits: "\<not> isFinite (percentage c (Fin 0))"
  by (cases c) (auto simp: percentage_def signed_inf_def)

lemma pointValue_eq:
  "pointValue c v = (if isFinite (percentage c v) then round2 (percentage c v) else Fin 0)"
proof (cases "v = Fin 0")
  case True
  then show ?thesis
    by (simp add: pointValue_def calculateConversionRate_def toFixed2_def Number_def
        percentage_zero_visits isNaN_def)
next
  case False
  then have rate: "calculateConversionRate c v = percentage c v"
    by (simp add: calculateConversionRate_def percentage_def)
  show ?thesis
  proof (cases "percentage c v")
    case (Fin x)
    then have x: "representable x" unfolding percentage_def by (rule fmul_representable)
    from round2_finite[OF x] obtain y where "round2 (Fin x) = Fin y" ..
    with Fin x show ?thesis
      by (simp add: pointValue_def rate Number_toFixed2_round2 isNaN_def)
  qed (simp_all add: pointValue_def rate Number_toFixed2_special isNaN_def)
qed

text \<open>The example of the specification: 50 conversions of 200 visits are 25 percent.\<close>

lemma pointValue_example: "pointValue (Fin 50) (Fin 200) = Fin 25"
  by (simp add: pointValue_def calculateConversionRate_def toFixed2_def Number_def isNaN_def
      rnd_eval)

lemma overflow_example:
  "percentage (Fin (2 ^ 1023)) (Fin 1) = PInf"
  by (simp add: percentage_def rnd_eval)

text \<open>
  Claim C3, as stated: for every pair of non-negative numbers with positive visits the
  rate equals \<open>(c / v) * 100\<close> rounded to 2 decimal digits. It fails where the
  percentage overflows: for \<open>2^1023\<close> conversions of 1 visit the product with 100 is
  \<open>+Infinity\<close>, and the rate is 0.
\<close>

theorem pointValue_counterexample:
  "pointValue (Fin (2 ^ 1023)) (Fin 1) \<noteq> round2 (percentage (Fin (2 ^ 1023)) (Fin 1))"
  unfolding pointValue_eq overflow_example by (simp add: round2_def)

text \<open>
  Claim C3, amended: for every pair of numbers, so for every non-negative \<open>c\<close> and
  positive \<open>v\<close>, whose percentage \<open>(c / v) * 100\<close> is finite in binary64 arithmetic,
  the rate equals the percentage rounded to 2 decimal digits; where the percentage is
  not finite the rate is 0.
\<close>

theorem pointValue_round2:
  "pointValue c v = (if isFinite (percentage c v) then round2 (percentage c v) else Fin 0)"
  by (rule pointValue_eq)

text \<open>
  Claim C4. Whatever the two numbers are (NaN, infinite and negative ones included), the
  rate that is computed and stored for a key is a finite number, never NaN or an
  infinity: a result of the rounding step that is not finite is replaced by 0.
\<close>

theorem pointValue_finite:
  "isFinite (pointValue c v) \<and>
   (\<not> isFinite (Number (toFixed2 (calculateConversionRate c v))) \<longrightarrow> pointValue c v = Fin 0)"
  by (cases "Number (toFixed2 (calculateConversionRate c v))")
     (simp_all add: pointValue_def isNaN_def)

theorem pointValue_finite_witness:
  "\<not> isFinite (Number (toFixed2 (calculateConversionRate NaN (Fin 1)))) \<and>
   isFinite (pointValue NaN (Fin 1)) \<and> pointValue NaN (Fin 1) = Fin 0"
  using pointValue_finite[of NaN "Fin 1"]
  by (simp add: calculateConversionRate_def Number_toFixed2_special)

section \<open>The processed series\<close>

subsection \<open>Slices, weeks and properties of objects\<close>

lemma slice_nat: "slice (Fin (real i)) (Fin (real j)) xs = take (j - i) (drop i xs)"
proof (cases "i < length xs")
  case True
  then have k: "relative_index (Fin (real i)) (int (length xs)) = int i" by simp
  have e: "relative_index (Fin (real j)) (int (length xs)) = int (min j (length xs))" by simp
  show ?thesis
  proof (cases "j \<le> length xs")
    case True
    then show ?thesis unfolding slice_def Let_def k e
      by (simp add: min_def nat_diff_distrib' flip: of_nat_diff)
  next
    case False
    with \<open>i < length xs\<close> show ?thesis unfolding slice_def Let_def k e
      by (simp add: min_def nat_diff_distrib')
  qed
next
  case False
  then show ?thesis by (simp add: slice_def Let_def)
qed

lemma week_count_step: "0 < m \<Longrightarrow> (m + 6) div 7 = Suc ((m - 7 + 6) div 7)" for m :: nat
proof (cases "m < 7")
  case True
  assume "0 < m"
  with True have "(m + 6) div 7 = 1" by (simp add: div_nat_eqI)
  moreover from True have "(m - 7 + 6) div 7 = 0" by simp
  ultimately show ?thesis by simp
next
  case False
  then have "m + 6 = (m - 7 + 6) + 7" by simp
  then have "(m + 6) div 7 = (m - 7 + 6) div 7 + 1" by (simp only: div_add_self2)
  then show ?thesis by simp
qed

lemma week_count_less: "i < (n + 6) div 7 \<Longrightarrow> 7 * i < n" for n :: nat
proof -
  assume "i < (n + 6) div 7"
  then have "Suc i \<le> (n + 6) div 7" by simp
  then have "Suc i * 7 \<le> n + 6" by (simp only: less_eq_div_iff_mult_less_eq zero_less_numeral)
  then show ?thesis by simp
qed

lemma chunks_step:
  assumes "i < length xs"
  shows "chunks i xs = take 7 (drop i xs) # chunks (i + 7) xs"
proof -
  have n: "(length xs - i + 6) div 7 = Suc ((length xs - (i + 7) + 6) div 7)"
    using assms week_count_step[of "length xs - i"] by simp
  show ?thesis
    unfolding chunks_def n map_upt_Suc by (simp add: add.assoc)
qed

lemma chunks_done: "\<not> i < length xs \<Longrightarrow> chunks i xs = []"
  by (simp add: chunks_def)

lemma weekGroups_loop_chunks: "weekGroups_loop i points acc = acc @ chunks i points"
proof (induction i points acc rule: weekGroups_loop.induct)
  case (1 i points weekGroups)
  show ?case
  proof (cases "i < length points")
    case True
    have week: "slice (Fin (real i)) (Fin (real i + 7)) points = take 7 (drop i points)"
      using slice_nat[of i "i + 7" points] by simp
    have ne: "0 < length (take 7 (drop i points))" using True by simp
    have "weekGroups_loop i points weekGroups
        = weekGroups_loop (i + 7) points (weekGroups @ [take 7 (drop i points)])"
      using True ne by (subst weekGroups_loop.simps) (simp add: week Let_def)
    also have "\<dots> = (weekGroups @ [take 7 (drop i points)]) @ chunks (i + 7) points"
      using "1.IH"[OF True refl] ne by (simp add: week)
    finally show ?thesis by (simp add: chunks_step[OF True])
  next
    case False
    then show ?thesis by (subst weekGroups_loop.simps) (simp add: chunks_done)
  qed
qed

lemma length_chunks: "length (chunks 0 xs) = (length xs + 6) div 7"
  by (simp add: chunks_def)

lemma nth_chunks: "i < (length xs + 6) div 7 \<Longrightarrow> chunks 0 xs ! i = take 7 (drop (7 * i) xs)"
  by (simp add: chunks_def)

lemma chunk_nonempty:
  assumes "i < (length xs + 6) div 7"
  shows "take 7 (drop (7 * i) xs) \<noteq> []"
proof -
  from assms have "7 * i < length xs" by (rule week_count_less)
  then show ?thesis by simp
qed

lemma weekPoint_Some: "week \<noteq> [] \<Longrightarrow> \<exists>p. weekPoint h week = Some p"
  by (cases week) (simp_all add: weekPoint_def Let_def)

lemma map_filter_all_Some:
  assumes "\<forall>x \<in> set xs. f x \<noteq> None"
  shows "List.map_filter f xs = map (\<lambda>x. the (f x)) xs"
  using assms by (induction xs) (auto simp: List.map_filter_simps)

lemma aggregateByWeek_eq:
  "aggregateByWeek h points = map (\<lambda>week. the (weekPoint h week)) (chunks 0 points)"
proof -
  have "\<forall>week \<in> set (chunks 0 points). weekPoint h week \<noteq> None"
  proof
    fix week assume "week \<in> set (chunks 0 points)"
    then obtain i where "i < (length points + 6) div 7" "week = take 7 (drop (7 * i) points)"
      by (auto simp: chunks_def)
    then have "week \<noteq> []" by (simp only: chunk_nonempty not_False_eq_True)
    then show "weekPoint h week \<noteq> None" using weekPoint_Some[of week h] by auto
  qed
  then show ?thesis
    by (simp add: aggregateByWeek_def weekGroups_loop_chunks map_filter_all_Some)
qed

lemma length_aggregateByWeek: "length (aggregateByWeek h points) = (length points + 6) div 7"
  by (simp add: aggregateByWeek_eq length_chunks)

lemma nth_aggregateByWeek:
  "i < (length points + 6) div 7 \<Longrightarrow>
   aggregateByWeek h points ! i = the (weekPoint h (take 7 (drop (7 * i) points)))"
  by (simp add: aggregateByWeek_eq length_chunks nth_chunks)

lemma get_Nil [simp]: "get [] key = Undefined"
  by (simp add: get_def)

lemma get_Cons [simp]: "get ((k, v) # ob) key = (if key = k then v else get ob key)"
  by (simp add: get_def)

lemma get_put: "get (put ob k v) k' = (if k' = k then v else get ob k')"
  by (simp add: get_def put_def update_conv')

lemma get_foldl_put:
  "get (foldl (\<lambda>ob k. put ob k (f k)) ob0 ks) key = (if key \<in> set ks then f key else get ob0 key)"
  by (induction ks arbitrary: ob0 rule: rev_induct) (auto simp: get_put)

lemma get_processPoint:
  "get (processPoint selectedVariations dataPoint) key =
     (if key \<in> set selectedVariations
      then Num (pointValue (or_zero (conversions dataPoint key)) (or_zero (visits dataPoint key)))
      else if key = ''date'' then Str (date dataPoint) else Undefined)"
  unfolding processPoint_def by (subst get_foldl_put) simp

lemma weekPoint_date:
  assumes "week \<noteq> []"
  shows "get (the (weekPoint h week)) ''date'' = chunk_label h week"
proof -
  from assms obtain first rest where w: "week = first # rest" by (cases week) auto
  show ?thesis
    unfolding w weekPoint_def Let_def chunk_label_def
    by (simp add: get_foldl_put)
qed

lemma weekPoint_value:
  assumes "week \<noteq> []" "key \<in> set (Object_keys (hd week))" "key \<noteq> ''date''"
  shows "get (the (weekPoint h week)) key = Num (weekValue h week key)"
proof -
  from assms(1) obtain first rest where w: "week = first # rest" by (cases week) auto
  show ?thesis
    using assms(2,3) unfolding w weekPoint_def Let_def
    by (simp add: get_foldl_put)
qed

lemma processData_Day: "processData h cd keys Day = map (processPoint keys) (data cd)"
  by (simp add: processData_def)

lemma processData_Week:
  "processData h cd keys Week = aggregateByWeek h (map (processPoint keys) (data cd))"
  by (simp add: processData_def)

lemma aggregateByWeek_Nil: "aggregateByWeek h [] = []"
  by (simp add: aggregateByWeek_eq chunks_def)

lemma processPoint_Nil: "processPoint [] dataPoint = [(''date'', Str (date dataPoint))]"
  by (simp add: processPoint_def)

text \<open>The scenario of the specification: 50 conversions of 200 visits on one day.\<close>

lemma processData_example:
  "processData h one_day [''a''] Day = [[(''date'', Str ''2024-01-01''), (''a'', Num (Fin 25))]]"
  by (simp add: processData_Day one_day_def sample_day_def processPoint_def put_def or_zero_def
      pointValue_example)

subsection \<open>Empty inputs\<close>

text \<open>
  Claim C2, as stated: with an empty set of selected keys or an empty series of records,
  the result is an empty sequence. It fails for the empty set of keys: one record and no
  key give one point.
\<close>

theorem processData_empty_keys_counterexample:
  "processData sample_host one_day [] Day \<noteq> []"
  by (simp add: processData_Day one_day_def)

text \<open>
  Claim C2, amended: an empty series of records gives an empty sequence, whatever the
  keys and the granularity. An empty set of keys gives, by day, one point per record that
  holds the date alone and, by week, one point per chunk of 7 records. No case raises:
  the functions have no \<open>throw\<close>, and the model of them has no error value.
\<close>

theorem processData_empty:
  "(data chartData = [] \<longrightarrow> processData h chartData selectedVariations timeRange = []) \<and>
   processData h chartData [] Day = map (\<lambda>r. [(''date'', Str (date r))]) (data chartData) \<and>
   length (processData h chartData [] Week) = (length (data chartData) + 6) div 7"
  by (cases timeRange)
     (simp_all add: processData_Day processData_Week aggregateByWeek_Nil processPoint_Nil
        length_aggregateByWeek)

theorem processData_empty_witness:
  "processData sample_host \<lparr>variations = [], data = []\<rparr> [''a''] Week = []"
  using processData_empty[of "\<lparr>variations = [], data = []\<rparr>" sample_host "[''a'']" Week]
  by simp

subsection \<open>The days\<close>

text \<open>
  Claim C5, as stated: by day, the i-th point carries the date of the i-th record, for
  every set of selected keys. It fails when \<open>date\<close> is itself a selected key: the rate
  stored under that key replaces the date of the point.
\<close>

lemma processData_date_example:
  "processData h one_day [''date''] Day = [[(''date'', Num (Fin 0))]]"
  by (simp add: processData_Day one_day_def sample_day_def processPoint_def put_def or_zero_def
      pointValue_def calculateConversionRate_def toFixed2_def Number_def isNaN_def)

theorem processData_date_counterexample:
  "get (processData sample_host one_day [''date''] Day ! 0) ''date''
     \<noteq> Str (date (data one_day ! 0))"
  by (simp add: processData_Day one_day_def get_processPoint)

text \<open>
  Claim C5, amended: for every series of records and every selection of keys other than
  \<open>date\<close>, the result by day has one point per record, in the order of the records,
  the i-th point carrying the date of the i-th record.
\<close>

theorem processData_day_dates:
  assumes "''date'' \<notin> set selectedVariations"
  shows "map (\<lambda>point. get point ''date'') (processData h chartData selectedVariations Day)
     = map (\<lambda>dataPoint. Str (date dataPoint)) (data chartData)"
  using assms by (simp add: processData_Day get_processPoint)

theorem processData_day_dates_witness:
  "map (\<lambda>point. get point ''date'') (processData sample_host ten_days [''a''] Day)
     = map (\<lambda>dataPoint. Str (date dataPoint)) (data ten_days)"
  using processData_day_dates[of "[''a'']" sample_host ten_days] by simp

subsection \<open>The weeks\<close>

lemma concat_chunks: "concat (chunks i xs) = drop i xs"
proof (induction "length xs - i" arbitrary: i rule: less_induct)
  case less
  show ?case
  proof (cases "i < length xs")
    case True
    then have "length xs - (i + 7) < length xs - i" by simp
    then have "concat (chunks (i + 7) xs) = drop (i + 7) xs" by (rule less)
    then show ?thesis
      by (simp add: chunks_step[OF True] add.commute[of i 7] flip: drop_drop)
  next
    case False
    then show ?thesis by (simp add: chunks_done)
  qed
qed

lemma week_count_ceiling: "int ((n + 6) div 7) = \<lceil>real n / 7\<rceil>"
proof -
  have "\<lceil>real n / 7\<rceil> = \<lceil>real_of_int (int n) / real_of_int 7\<rceil>" by simp
  also have "\<dots> = - (- int n div 7)" by (simp only: ceiling_divide_eq_div)
  also have "\<dots> = int ((n + 6) div 7)" by (simp add: zdiv_int)
  finally show ?thesis by simp
qed

text \<open>
  Claim C6. By week the result has \<open>\<lceil>n / 7\<rceil>\<close> points for \<open>n\<close> records (also for
  \<open>n = 0\<close>). Its points follow the chunks of 7 consecutive day points, which are not
  empty and together are the whole day series: the i-th point is labelled with the date
  of the only point of the i-th chunk, or with "first date - last date" of the chunk.
  Ten records give exactly 2 points, the second labelled with the dates of the 8th and
  the 10th day point, which are the dates of the 8th and the 10th record unless
  \<open>date\<close> is a selected key.
\<close>

theorem processData_week_labels:
  "int (length (processData h chartData keys Week)) = \<lceil>real (length (data chartData)) / 7\<rceil> \<and>
   concat (map (\<lambda>i. take 7 (drop (7 * i) (processData h chartData keys Day)))
               [0..<length (processData h chartData keys Week)])
     = processData h chartData keys Day \<and>
   (\<forall>i < length (processData h chartData keys Week).
      take 7 (drop (7 * i) (processData h chartData keys Day)) \<noteq> [] \<and>
      get (processData h chartData keys Week ! i) ''date''
        = chunk_label h (take 7 (drop (7 * i) (processData h chartData keys Day)))) \<and>
   (length (data chartData) = 10 \<longrightarrow>
      length (processData h chartData keys Week) = 2 \<and>
      get (processData h chartData keys Week ! 1) ''date''
        = Str (ToString h (get (processData h chartData keys Day ! 7) ''date'') @ '' - '' @
               ToString h (get (processData h chartData keys Day ! 9) ''date'')) \<and>
      (''date'' \<notin> set keys \<longrightarrow>
         get (processData h chartData keys Week ! 1) ''date''
           = Str (date (data chartData ! 7) @ '' - '' @ date (data chartData ! 9))))"
proof -
  define day where "day = processData h chartData keys Day"
  define week where "week = processData h chartData keys Week"
  have week: "week = aggregateByWeek h day"
    by (simp add: week_def day_def processData_Day processData_Week)
  have n: "length day = length (data chartData)" by (simp add: day_def processData_Day)
  have len: "length week = (length day + 6) div 7" by (simp add: week length_aggregateByWeek)
  have count: "int (length week) = \<lceil>real (length (data chartData)) / 7\<rceil>"
    by (simp only: len n week_count_ceiling)
  have partition: "concat (map (\<lambda>i. take 7 (drop (7 * i) day)) [0..<length week]) = day"
    using concat_chunks[of 0 day] by (simp add: chunks_def len)
  have label: "take 7 (drop (7 * i) day) \<noteq> [] \<and>
      get (week ! i) ''date'' = chunk_label h (take 7 (drop (7 * i) day))" if "i < length week" for i
  proof -
    from that have i: "i < (length day + 6) div 7" by (simp add: len)
    then have ne: "take 7 (drop (7 * i) day) \<noteq> []" by (rule chunk_nonempty)
    then show ?thesis by (simp add: week nth_aggregateByWeek[OF i] weekPoint_date)
  qed
  have ten: "length week = 2 \<and>
      get (week ! 1) ''date'' = Str (ToString h (get (day ! 7) ''date'') @ '' - '' @
                                     ToString h (get (day ! 9) ''date'')) \<and>
      (''date'' \<notin> set keys \<longrightarrow>
         get (week ! 1) ''date'' = Str (date (data chartData ! 7) @ '' - '' @ date (data chartData ! 9)))"
    if ten: "length (data chartData) = 10"
  proof -
    from ten have l: "length day = 10" by (simp add: n)
    then have w2: "length week = 2" by (simp add: len)
    have chunk: "take 7 (drop 7 day) = drop 7 day" using l by simp
    have "hd (drop 7 day) = day ! 7" using l by (simp add: hd_drop_conv_nth)
    moreover have "last (drop 7 day) = day ! 9" using l by (simp add: last_conv_nth)
    moreover have "length (drop 7 day) = 3" using l by simp
    moreover have "get (week ! 1) ''date'' = chunk_label h (take 7 (drop 7 day))"
      using label[of 1] w2 by simp
    ultimately have lab: "get (week ! 1) ''date'' = Str (ToString h (get (day ! 7) ''date'') @ '' - '' @
                                     ToString h (get (day ! 9) ''date''))"
      unfolding chunk by (simp add: chunk_label_def)
    have "get (day ! i) ''date'' = Str (date (data chartData ! i))"
      if "''date'' \<notin> set keys" "i < 10" for i
      using that ten by (simp add: day_def processData_Day get_processPoint)
    then show ?thesis using w2 lab by (simp add: ToString_def)
  qed
  show ?thesis
    using count partition label ten unfolding day_def week_def by blast
qed

theorem processData_week_labels_witness:
  "length (processData sample_host ten_days [''a''] Week) = 2 \<and>
   get (processData sample_host ten_days [''a''] Week ! 1) ''date'' = Str ''day8 - day10''"
proof -
  have ten: "length (data ten_days) = 10" by (simp add: ten_days_def)
  have key: "''date'' \<notin> set [''a'']" by simp
  from processData_week_labels[of sample_host ten_days "[''a'']"] ten key
  have "length (processData sample_host ten_days [''a''] Week) = 2 \<and>
     get (processData sample_host ten_days [''a''] Week ! 1) ''date''
       = Str (date (data ten_days ! 7) @ '' - '' @ date (data ten_days ! 9))"
    by blast
  then show ?thesis by (simp add: ten_days_def sample_day_def)
qed

lemma ToNumber_simps [simp]:
  "ToNumber h Undefined = NaN" "ToNumber h (Str s) = StringToNumber h s" "ToNumber h (Num a) = a"
  by (simp_all add: ToNumber_def)

lemma foldl_js_add_Num:
  "foldl (js_add h) (Num a) (map Num xs) = Num (foldl fadd a xs)"
  by (induction xs arbitrary: a) (simp_all add: js_add_def)

lemma finite_numbers_Nil [simp]: "finite_numbers [] = []"
  by (simp add: finite_numbers_def)

lemma finite_numbers_Cons [simp]:
  "finite_numbers (v # vs) = (case v of Num (Fin x) \<Rightarrow> [Fin x] | _ \<Rightarrow> []) @ finite_numbers vs"
  by (simp add: finite_numbers_def)

lemma filter_finite_numbers:
  assumes "\<forall>v \<in> set vs. \<not> is_Str v"
  shows "filter (\<lambda>val. \<not> isNaN (ToNumber h val) \<and> val \<noteq> Undefined \<and> isFinite (ToNumber h val)) vs
     = map Num (finite_numbers vs)"
  using assms
proof (induction vs)
  case Nil
  then show ?case by simp
next
  case (Cons v vs)
  then have IH: "filter (\<lambda>val. \<not> isNaN (ToNumber h val) \<and> val \<noteq> Undefined \<and> isFinite (ToNumber h val)) vs
     = map Num (finite_numbers vs)" by simp
  from Cons.prems have "\<not> is_Str v" by simp
  then show ?case
  proof (cases v)
    case (Num a)
    then show ?thesis using IH
      by (cases a) (simp_all add: isNaN_def)
  qed (use IH in \<open>simp_all add: isNaN_def\<close>)
qed

lemma Number_toFixed2_mean: "Number (toFixed2 (mean xs)) = round2 (mean xs)"
proof (cases "mean xs")
  case (Fin x)
  have "representable x"
  proof (cases "xs = []")
    case True
    with Fin show ?thesis using representable_of_int[of 0] by (simp add: mean_def)
  next
    case False
    with Fin show ?thesis by (auto simp: mean_def intro: fdiv_representable)
  qed
  with Fin show ?thesis by (simp add: Number_toFixed2_round2)
qed (simp_all add: Number_toFixed2_special round2_def)

lemma weekValue_eq:
  assumes "\<forall>point \<in> set week. \<not> is_Str (get point key)"
  shows "weekValue h week key = weeklyAggregate (map (\<lambda>point. get point key) week)"
proof -
  define vs where "vs = map (\<lambda>point. get point key) week"
  define xs where "xs = finite_numbers vs"
  have "\<forall>v \<in> set vs. \<not> is_Str v" using assms by (simp add: vs_def)
  then have vals: "filter (\<lambda>val. \<not> isNaN (ToNumber h val) \<and> val \<noteq> Undefined \<and> isFinite (ToNumber h val)) vs
     = map Num xs" unfolding xs_def by (rule filter_finite_numbers)
  have average: "(if 0 < length (map Num xs)
                  then fdiv (ToNumber h (foldl (js_add h) (Num (Fin 0)) (map Num xs)))
                            (Fin (real (length (map Num xs))))
                  else Fin 0) = mean xs"
    by (simp add: mean_def foldl_js_add_Num)
  show ?thesis
    unfolding weekValue_def weeklyAggregate_def Let_def vs_def[symmetric] vals average
      Number_toFixed2_mean xs_def[symmetric]
    by (cases "round2 (mean xs)") (simp_all add: isNaN_def)
qed

lemma weeklyAggregate_finite: "isFinite (weeklyAggregate vs)"
  by (simp add: weeklyAggregate_def Let_def)

lemma foldl_fadd_zeros: "foldl fadd (Fin 0) (replicate n (Fin 0)) = Fin 0"
  by (induction n) simp_all

lemma finite_numbers_zeros:
  "finite_numbers (replicate n (Num (Fin 0))) = replicate n (Fin 0)"
  by (induction n) simp_all

lemma weeklyAggregate_zeros:
  assumes "\<forall>v \<in> set vs. v = Num (Fin 0)"
  shows "weeklyAggregate vs = Fin 0"
proof -
  from assms have vs: "vs = replicate (length vs) (Num (Fin 0))"
    by (simp add: replicate_length_same)
  have "mean (replicate n (Fin 0)) = Fin 0" for n
    by (cases n) (simp_all add: mean_def foldl_fadd_zeros del: replicate.simps)
  then have "round2 (mean (finite_numbers vs)) = Fin 0"
    by (subst vs) (simp add: finite_numbers_zeros round2_def)
  then show ?thesis by (simp add: weeklyAggregate_def)
qed

text \<open>
  Claim C7. For every chunk of a week and every variation key (a key of the first point
  of the chunk other than \<open>date\<close>) under which the points of the chunk hold numbers or
  nothing, the weekly value is the arithmetic mean, in binary64 arithmetic, of the finite
  numbers among the values of the key, 0 when there is none, rounded to 2 decimal digits,
  and 0 when that is not finite. It is always a finite number; when the key holds 0 in
  every point of the chunk it is 0.
\<close>

theorem aggregateByWeek_values:
  assumes "i < length (aggregateByWeek h points)"
    and "key \<in> set (Object_keys (hd (take 7 (drop (7 * i) points))))" and "key \<noteq> ''date''"
    and "\<forall>point \<in> set (take 7 (drop (7 * i) points)). \<not> is_Str (get point key)"
  shows "get (aggregateByWeek h points ! i) key
       = Num (weeklyAggregate (map (\<lambda>point. get point key) (take 7 (drop (7 * i) points)))) \<and>
     isFinite (weeklyAggregate (map (\<lambda>point. get point key) (take 7 (drop (7 * i) points)))) \<and>
     ((\<forall>point \<in> set (take 7 (drop (7 * i) points)). get point key = Num (Fin 0)) \<longrightarrow>
        get (aggregateByWeek h points ! i) key = Num (Fin 0))"
proof -
  define week where "week = take 7 (drop (7 * i) points)"
  from assms(1) have i: "i < (length points + 6) div 7" by (simp add: length_aggregateByWeek)
  then have ne: "week \<noteq> []" unfolding week_def by (rule chunk_nonempty)
  have "get (aggregateByWeek h points ! i) key = Num (weekValue h week key)"
    using assms(2,3) ne by (simp add: nth_aggregateByWeek[OF i] week_def[symmetric] weekPoint_value)
  also have "weekValue h week key = weeklyAggregate (map (\<lambda>point. get point key) week)"
    using assms(4) unfolding week_def by (rule weekValue_eq)
  finally have v: "get (aggregateByWeek h points ! i) key
       = Num (weeklyAggregate (map (\<lambda>point. get point key) week))" .
  have "weeklyAggregate (map (\<lambda>point. get point key) week) = Fin 0"
    if "\<forall>point \<in> set week. get point key = Num (Fin 0)"
    using that by (intro weeklyAggregate_zeros) auto
  with v show ?thesis unfolding week_def by (simp add: weeklyAggregate_finite)
qed

theorem aggregateByWeek_values_witness:
  "get (aggregateByWeek sample_host
          [[(''date'', Str ''day1''), (''a'', Num (Fin 10))],
           [(''date'', Str ''day2''), (''a'', Num (Fin 20))]] ! 0) ''a'' = Num (Fin 15)"
  using aggregateByWeek_values[of 0 sample_host
          "[[(''date'', Str ''day1''), (''a'', Num (Fin 10))],
            [(''date'', Str ''day2''), (''a'', Num (Fin 20))]]" "''a''"]
  by (simp add: length_aggregateByWeek Object_keys_def weeklyAggregate_def
      mean_def round2_def)

section \<open>The keys of the variations\<close>

lemma put_twice: "put (put ob k v) k v = put ob k v"
  by (simp add: put_def)

text \<open>
  Claim C10. \<open>getVariationKey\<close> returns the string "0" both for a variation without an
  id and for the variation whose id is the number 0. The two variations share the key:
  selecting both stores one value under "0" in every point, the second assignment
  overwriting the first, so that the result is that of selecting the key "0" once.
\<close>

theorem getVariationKey_collision:
  "getVariationKey h \<lparr>id_opt = None, name = a\<rparr> = ''0'' \<and>
   getVariationKey h \<lparr>id_opt = Some (Fin 0), name = b\<rparr> = ''0'' \<and>
   processData h cd [getVariationKey h \<lparr>id_opt = None, name = a\<rparr>,
                     getVariationKey h \<lparr>id_opt = Some (Fin 0), name = b\<rparr>] tr
     = processData h cd [''0''] tr"
proof -
  have k: "getVariationKey h \<lparr>id_opt = None, name = a\<rparr> = ''0''"
    "getVariationKey h \<lparr>id_opt = Some (Fin 0), name = b\<rparr> = ''0''"
    by (simp_all add: getVariationKey_def NumberToString_def)
  have "processPoint [''0'', ''0''] = processPoint [''0'']"
    by (rule ext) (simp add: processPoint_def put_twice)
  then show ?thesis by (simp add: k processData_def)
qed

section \<open>The domain of the value axis\<close>

lemma representable_binary64:
  "\<bar>n\<bar> < 2 ^ 53 \<Longrightarrow> - 1074 \<le> j \<Longrightarrow> j \<le> 971 \<Longrightarrow> representable (real_of_int n * 2 powi j)"
  unfolding representable_iff by blast

lemma rnd_between:
  assumes "representable lo" "representable hi" "lo \<le> x" "x \<le> hi"
  shows "\<exists>y. rnd x = Fin y \<and> lo \<le> y \<and> y \<le> hi \<and> representable y"
proof -
  have "js_le (Fin lo) (rnd x)" "js_le (rnd x) (Fin hi)"
    using assms by (simp_all add: rnd_ge_representable rnd_le_representable)
  then obtain y where "rnd x = Fin y" "lo \<le> y" "y \<le> hi" by (rule js_between_Fin)
  then show ?thesis using rnd_representable by blast
qed

lemma foldl_Math_min_Fin:
  assumes "\<forall>a \<in> set as. \<exists>x. a = Fin x"
  shows "\<exists>m. foldl Math_min (Fin a0) as = Fin m \<and> (m = a0 \<or> Fin m \<in> set as) \<and> m \<le> a0 \<and>
             (\<forall>x. Fin x \<in> set as \<longrightarrow> m \<le> x)"
  using assms
proof (induction as arbitrary: a0)
  case Nil
  then show ?case by simp
next
  case (Cons a as)
  then obtain x where a: "a = Fin x" by auto
  have step: "Math_min (Fin a0) (Fin x) = Fin (min a0 x)" by (simp add: Math_min_def min_def)
  from Cons.IH[of "min a0 x"] Cons.prems
  obtain m where "foldl Math_min (Fin (min a0 x)) as = Fin m"
    "m = min a0 x \<or> Fin m \<in> set as" "m \<le> min a0 x" "\<forall>y. Fin y \<in> set as \<longrightarrow> m \<le> y"
    by auto
  then show ?case unfolding a by (auto simp: step min_def split: if_splits)
qed

lemma foldl_Math_max_Fin:
  assumes "\<forall>a \<in> set as. \<exists>x. a = Fin x"
  shows "\<exists>m. foldl Math_max (Fin a0) as = Fin m \<and> (m = a0 \<or> Fin m \<in> set as) \<and> a0 \<le> m \<and>
             (\<forall>x. Fin x \<in> set as \<longrightarrow> x \<le> m)"
  using assms
proof (induction as arbitrary: a0)
  case Nil
  then show ?case by simp
next
  case (Cons a as)
  then obtain x where a: "a = Fin x" by auto
  have step: "Math_max (Fin a0) (Fin x) = Fin (max a0 x)" by (simp add: Math_max_def max_def)
  from Cons.IH[of "max a0 x"] Cons.prems
  obtain m where "foldl Math_max (Fin (max a0 x)) as = Fin m"
    "m = max a0 x \<or> Fin m \<in> set as" "max a0 x \<le> m" "\<forall>y. Fin y \<in> set as \<longrightarrow> y \<le> m"
    by auto
  then show ?case unfolding a by (auto simp: step max_def split: if_splits)
qed

lemma Math_min_list_Fin:
  assumes "as \<noteq> []" "\<forall>a \<in> set as. \<exists>x. a = Fin x"
  shows "\<exists>m. Math_min_list as = Fin m \<and> Fin m \<in> set as \<and> (\<forall>x. Fin x \<in> set as \<longrightarrow> m \<le> x)"
proof -
  from assms obtain x rest where as: "as = Fin x # rest" by (cases as) auto
  have first: "Math_min PInf (Fin x) = Fin x" by (simp add: Math_min_def)
  from foldl_Math_min_Fin[of rest x] assms(2) show ?thesis
    unfolding Math_min_list_def as by (auto simp: first)
qed

lemma Math_max_list_Fin:
  assumes "as \<noteq> []" "\<forall>a \<in> set as. \<exists>x. a = Fin x"
  shows "\<exists>m. Math_max_list as = Fin m \<and> Fin m \<in> set as \<and> (\<forall>x. Fin x \<in> set as \<longrightarrow> x \<le> m)"
proof -
  from assms obtain x rest where as: "as = Fin x # rest" by (cases as) auto
  have first: "Math_max NInf (Fin x) = Fin x" by (simp add: Math_max_def)
  from foldl_Math_max_Fin[of rest x] assms(2) show ?thesis
    unfolding Math_max_list_def as by (auto simp: first)
qed

text \<open>
  The example of the specification: the values 10, 20 and 30 drawn as lines have the
  domain from 8 to 32.
\<close>

lemma yAxisDomain_example:
  "yAxisDomain h [[(''date'', Str ''day1''), (''a'', Num (Fin 10))],
                  [(''date'', Str ''day2''), (''a'', Num (Fin 20))],
                  [(''date'', Str ''day3''), (''a'', Num (Fin 30))]] [''a''] None Line
     = (Fin 8, Fin 32)"
  by (simp add: yAxisDomain_def allValues_def dataToUse_def Math_min_list_def
      Math_max_list_def Math_min_def Math_max_def isNaN_def fsub_def fneg_def js_gt_def Let_def
      rnd_eval)

lemma huge_rate: "pointValue (Fin (5 * 2 ^ 1015)) (Fin 1) = Fin (125 * 2 ^ 1017)"
proof -
  have r1: "rnd (5 * 2 ^ 1015) = Fin (5 * 2 ^ 1015)" by (simp add: rnd_eval)
  have r2: "rnd (5 * 2 ^ 1015 * 100) = Fin (125 * 2 ^ 1017)" by (simp add: rnd_eval)
  have r3: "rnd (125 * 2 ^ 1017) = Fin (125 * 2 ^ 1017)" by (simp add: rnd_eval)
  have rate: "calculateConversionRate (Fin (5 * 2 ^ 1015)) (Fin 1) = Fin (125 * 2 ^ 1017)"
    using r1 r2 by (simp add: calculateConversionRate_def)
  have str: "toFixed2 (Fin (125 * 2 ^ 1017)) = StrDecimal (125 * 2 ^ 1017)"
    by (simp add: toFixed2_def)
  show ?thesis
    unfolding pointValue_def Let_def rate str Number_def using r3 by (simp add: isNaN_def)
qed

lemma huge_point:
  "processData h huge_day [''0''] Day
     = [[(''date'', Str ''2024-01-01''), (''0'', Num (Fin (125 * 2 ^ 1017)))]]"
  unfolding processData_Day huge_day_def processPoint_def
  by (simp add: put_def or_zero_def huge_rate del: power_numeral)

lemma huge_domain:
  "yAxisDomain h [[(''date'', Str ''2024-01-01''), (''0'', Num (Fin (125 * 2 ^ 1017)))]] [''0''] None Line
     = (Fin (225 * 2 ^ 1016), PInf)"
proof -
  define M :: real where "M = 125 * 2 ^ 1017"
  define P :: real where "P = 25 * 2 ^ 1016"
  define Q :: real where "Q = 225 * 2 ^ 1016"
  define c :: real where "c = 3602879701896397 / 36028797018963968"
  define d :: real where "d = 5404319552844595 / 4503599627370496"
  have c: "rnd (1 / 10) = Fin c" unfolding c_def by (simp add: rnd_eval)
  have d: "rnd (6 / 5) = Fin d" unfolding d_def by (simp add: rnd_eval)
  have P: "rnd (M * c) = Fin P" unfolding M_def c_def P_def by (simp add: rnd_eval)
  have Q: "rnd (M - P) = Fin Q" unfolding M_def Q_def P_def by (simp add: rnd_eval)
  have top: "rnd (M + P) = PInf" unfolding M_def P_def by (simp add: rnd_eval)
  have fallback: "rnd (M * d) = PInf" unfolding M_def d_def by (simp add: rnd_eval)
  have ord: "0 < M" "\<not> P < 1" "0 < Q" by (simp_all add: M_def P_def Q_def)
  show ?thesis
    unfolding M_def[symmetric] Q_def[symmetric]
    by (simp add: yAxisDomain_def allValues_def dataToUse_def Math_min_list_def
        Math_max_list_def Math_min_def Math_max_def isNaN_def fsub_def fneg_def js_gt_def Let_def
        c d P Q top fallback ord)
qed

text \<open>
  Claim C8: for visible points whose numbers are finite and not negative, the domain has
  two finite bounds with \<open>min \<le> max\<close>. The code guards the upper bound with
  \<open>isFinite\<close>, but the guard falls back on \<open>max * 1.2\<close>, which overflows whenever
  \<open>max + paddingTop\<close> did: for the rate \<open>125 * 2^1017\<close> (about 1.76e308) of the day
  above, the upper bound of the domain is \<open>+Infinity\<close>.
\<close>

theorem yAxisDomain_overflow:
  "yAxisDomain sample_host (processData sample_host huge_day [''0''] Day) [''0''] None Line
     = (Fin (225 * 2 ^ 1016), PInf)"
  unfolding huge_point by (rule huge_domain)

theorem yAxisDomain_overflow_witness:
  "snd (yAxisDomain sample_host (processData sample_host huge_day [''0''] Day) [''0''] None Line)
     = PInf"
  using yAxisDomain_overflow by simp

text \<open>
  Away from the overflow the property holds: when the numbers among the values that are
  drawn are binary64 values from 0 to \<open>10^300\<close>, the domain has two finite bounds with
  \<open>min \<le> max\<close>, for every line style.
\<close>

lemma yAxisDomain_bounded:
  assumes vals: "\<forall>v \<in> set (allValues h (dataToUse processedData visibleRange) selectedVariations).
             \<exists>x. v = Num (Fin x) \<and> representable x \<and> 0 \<le> x \<and> x \<le> 10 ^ 300"
  shows "AxisDomain_ok (yAxisDomain h processedData selectedVariations visibleRange lineStyle)"
proof (cases "allValues h (dataToUse processedData visibleRange) selectedVariations = []")
  case True
  then show ?thesis by (simp add: yAxisDomain_def AxisDomain_ok_def)
next
  case False
  define vs where "vs = allValues h (dataToUse processedData visibleRange) selectedVariations"
  define B :: real where "B = real_of_int (2 ^ 26) * 2 powi 971"
  have B: "representable B" "representable (- B)" "representable (2 * B)" "representable (- (2 * B))"
  proof -
    show "representable B" unfolding B_def by (intro representable_binary64) simp_all
    then show "representable (- B)" by (rule representable_uminus)
    have "2 * B = real_of_int (2 ^ 27) * 2 powi 971" by (simp add: B_def)
    moreover have "representable (real_of_int (2 ^ 27) * 2 powi 971)"
      by (intro representable_binary64) simp_all
    ultimately show "representable (2 * B)" by simp
    then show "representable (- (2 * B))" by (rule representable_uminus)
  qed
  have B300: "10 ^ 300 \<le> B" "5 \<le> B" by (simp_all add: B_def)
  have r0: "representable 0" "representable 1" "representable (- 5)"
    using representable_of_int[of 0] representable_of_int[of 1] representable_of_int[of "- 5"]
    by simp_all
  \<comment> \<open>minimum and maximum are values of the list\<close>
  have all: "\<forall>a \<in> set (map (ToNumber h) vs). \<exists>x. a = Fin x"
    and ne: "map (ToNumber h) vs \<noteq> []"
    and el: "\<And>x. Fin x \<in> set (map (ToNumber h) vs) \<Longrightarrow> representable x \<and> 0 \<le> x \<and> x \<le> B"
    using vals False B300 unfolding vs_def[symmetric] by (fastforce simp: ToNumber_def)+
  from Math_min_list_Fin[OF ne all] obtain m where
    m: "Math_min_list (map (ToNumber h) vs) = Fin m" "Fin m \<in> set (map (ToNumber h) vs)"
       "\<forall>x. Fin x \<in> set (map (ToNumber h) vs) \<longrightarrow> m \<le> x" by blast
  from Math_max_list_Fin[OF ne all] obtain M where
    M: "Math_max_list (map (ToNumber h) vs) = Fin M" "Fin M \<in> set (map (ToNumber h) vs)" by blast
  from el[OF m(2)] el[OF M(2)] m(3) M(2)
  have mM: "representable m" "0 \<le> m" "representable M" "M \<le> B" "m \<le> M" by auto
  \<comment> \<open>the range and the paddings\<close>
  obtain R where R: "fsub (Fin M) (Fin m) = Fin R" "0 \<le> R" "R \<le> B"
    using rnd_between[OF r0(1) B(1), of "M - m"] mM by (auto simp: fsub_def fneg_def)
  obtain b where b: "rnd (1 / 10) = Fin b" "0 \<le> b" "b \<le> 1"
    using rnd_between[OF r0(1,2), of "1 / 10"] by auto
  have "\<exists>t. (if lineStyle = Smooth then rnd (2 / 10) else Fin b) = Fin t \<and> 0 \<le> t \<and> t \<le> 1"
    using rnd_between[OF r0(1,2), of "2 / 10"] b by (cases "lineStyle = Smooth") auto
  then obtain t where t: "(if lineStyle = Smooth then rnd (2 / 10) else Fin b) = Fin t"
      "0 \<le> t" "t \<le> 1" by blast
  have pad: "\<exists>p. fmul (Fin u) (Fin s) = Fin p \<and> 0 \<le> p \<and> p \<le> B"
    if "0 \<le> u" "u \<le> B" "0 \<le> s" "s \<le> 1" for u s
  proof -
    have "u * s \<le> B" using that by (meson mult_left_le order_trans)
    with that show ?thesis using rnd_between[OF r0(1) B(1), of "u * s"] by auto
  qed
  have M0: "0 \<le> M" using mM by simp
  have cascade: "\<exists>p. (if js_gt (Fin R) (Fin 0) then fmul (Fin R) (Fin s)
      else if js_gt (Fin M) (Fin 0) then fmul (Fin M) (Fin s) else Fin 1) = Fin p \<and>
      0 \<le> p \<and> p \<le> B" if s: "0 \<le> s" "s \<le> 1" for s
  proof (cases "js_gt (Fin R) (Fin 0)")
    case True
    then show ?thesis using pad[OF R(2,3) s] by simp
  next
    case no_range: False
    show ?thesis
    proof (cases "js_gt (Fin M) (Fin 0)")
      case True
      with no_range show ?thesis using pad[OF M0 mM(4) s] by simp
    next
      case False
      with no_range show ?thesis using B300(2) by simp
    qed
  qed
  from cascade[OF t(2,3)] obtain p0 where p0: "(if js_gt (Fin R) (Fin 0) then fmul (Fin R) (Fin t)
      else if js_gt (Fin M) (Fin 0) then fmul (Fin M) (Fin t) else Fin 1) = Fin p0"
      "0 \<le> p0" "p0 \<le> B" by blast
  from cascade[OF b(2,3)] obtain q0 where q0: "(if js_gt (Fin R) (Fin 0) then fmul (Fin R) (Fin b)
      else if js_gt (Fin M) (Fin 0) then fmul (Fin M) (Fin b) else Fin 1) = Fin q0"
      "0 \<le> q0" "q0 \<le> B" by blast
  define pT where "pT = max 1 p0"
  define pB where "pB = max 1 q0"
  have pT: "(if js_lt (Fin p0) (Fin 1) then Fin 1 else Fin p0) = Fin pT" "1 \<le> pT" "pT \<le> B"
    using p0 B300(2) by (auto simp: pT_def max_def)
  have pB: "(if js_lt (Fin q0) (Fin 1) then Fin 1 else Fin q0) = Fin pB" "1 \<le> pB" "pB \<le> B"
    using q0 B300(2) by (auto simp: pB_def max_def)
  \<comment> \<open>the two bounds\<close>
  obtain D where D: "fadd (Fin M) (Fin pT) = Fin D" "M \<le> D"
    using rnd_between[OF mM(3) B(3), of "M + pT"] pT mM by auto
  obtain d where d: "fsub (Fin m) (Fin pB) = Fin d" "d \<le> m" "- B \<le> d" "representable d"
    using rnd_between[OF B(2) mM(1), of "m - pB"] pB mM by (auto simp: fsub_def fneg_def)
  obtain d' where d': "fsub (Fin d) (Fin 5) = Fin d'" "d' \<le> d"
    using rnd_between[OF B(4) d(4), of "d - 5"] d B300(2) by (auto simp: fsub_def fneg_def)
  have "\<exists>L. (if lineStyle = Smooth
        then Math_max (Fin (- 5)) (fsub (fsub (Fin m) (Fin pB)) (Fin 5))
        else Math_max (Fin 0) (fsub (Fin m) (Fin pB))) = Fin L \<and> L \<le> M"
  proof (cases "lineStyle = Smooth")
    case True
    have "Math_max (Fin (- 5)) (Fin d') = Fin (max (- 5) d')" by (simp add: Math_max_def max_def)
    moreover have "max (- 5) d' \<le> M" using d' d mM by simp
    ultimately show ?thesis using True by (simp add: d(1) d'(1))
  next
    case False
    have "Math_max (Fin 0) (Fin d) = Fin (max 0 d)" by (simp add: Math_max_def max_def)
    moreover have "max 0 d \<le> M" using d mM by simp
    ultimately show ?thesis using False by (simp add: d(1))
  qed
  then obtain L where L: "(if lineStyle = Smooth
        then Math_max (Fin (- 5)) (fsub (fsub (Fin m) (Fin pB)) (Fin 5))
        else Math_max (Fin 0) (fsub (Fin m) (Fin pB))) = Fin L" "L \<le> M" by blast
  have "yAxisDomain h processedData selectedVariations visibleRange lineStyle = (Fin L, Fin D)"
    unfolding yAxisDomain_def Let_def vs_def[symmetric] m(1) M(1) R(1) b(1) t(1) p0(1) q0(1)
      pT(1) pB(1) D(1) L(1)
    using False by (simp add: vs_def isNaN_def)
  with L(2) D(2) show ?thesis by (simp add: AxisDomain_ok_def)
qed

text \<open>
  Claim C9. When no selected key holds a finite number in any visible point (the visible
  points or the selected keys may be empty), the domain is exactly 0 to 100, whatever the
  line style.
\<close>

theorem yAxisDomain_default:
  assumes "\<forall>point \<in> set (dataToUse processedData visibleRange).
             \<forall>key \<in> set selectedVariations. \<not> isFinite (ToNumber h (get point key))"
  shows "yAxisDomain h processedData selectedVariations visibleRange lineStyle = (Fin 0, Fin 100)"
proof -
  have "allValues h (dataToUse processedData visibleRange) selectedVariations = []"
    using assms by (auto simp: allValues_def filter_empty_conv)
  then show ?thesis by (simp add: yAxisDomain_def)
qed

theorem yAxisDomain_default_witness:
  "yAxisDomain sample_host [[(''date'', Str ''2024-01-01'')]] [''a''] None Line = (Fin 0, Fin 100)"
proof -
  have "\<forall>point \<in> set (dataToUse [[(''date'', Str ''2024-01-01'')]] None).
      \<forall>key \<in> set [''a'']. \<not> isFinite (ToNumber sample_host (get point key))"
    by (simp add: dataToUse_def get_def ToNumber_def)
  then show ?thesis by (rule yAxisDomain_default)
qed

end
